theory Spec2Isabelle
  imports Complex_Main
begin

section \<open>Numbers\<close>

text \<open>
  A JavaScript number is an IEEE 754 double: a finite value, one of the two infinities or
  \<open>NaN\<close>. A finite double is \<open>m * 2 ^ k\<close> with an integer \<open>m\<close> of at most 53 bits and
  \<open>-1074 \<le> k \<le> 971\<close>; the model keeps its value as a real and rounds the exact
  result of every arithmetic operation to the nearest double, a tie going to the even
  mantissa. The sign of zero is not modelled: every zero that reaches a division in
  \<open>render\<close> comes from an unsigned DOM attribute, so it is a positive zero.
\<close>

datatype jsnum = Fin real | PInf | NInf | NaN

text \<open>An infinity with the sign of a non-zero real.\<close>

definition inf_of_sign :: "real \<Rightarrow> jsnum" where
  "inf_of_sign a = (if 0 < a then PInf else NInf)"

text \<open>The nearest integer, a tie going to the even one.\<close>

definition rne :: "real \<Rightarrow> int" where
  "rne x =
     (let f = \<lfloor>x\<rfloor> in
      if x - of_int f < 1 / 2 then f
      else if 1 / 2 < x - of_int f then f + 1
      else if even f then f else f + 1)"

text \<open>The binade of a positive real \<open>a\<close>: the integer \<open>e\<close> with \<open>2 ^ e \<le> a < 2 ^ (e + 1)\<close>.\<close>

definition binade :: "real \<Rightarrow> int" where
  "binade a = \<lfloor>log 2 a\<rfloor>"

text \<open>
  Rounding a real to a double. At and beyond \<open>2 ^ 1024 - 2 ^ 970\<close>, half way from the
  largest double to \<open>2 ^ 1024\<close>, the result is an infinity. Below, with \<open>e\<close> the binade of
  \<open>\<bar>x\<bar>\<close>, at least -1022 (the subnormal numbers share the spacing of the lowest binade),
  the doubles around \<open>x\<close> are the multiples of \<open>2 ^ (e - 52)\<close>, and the result is the nearest
  of them.
\<close>

definition round_double :: "real \<Rightarrow> jsnum" where
  "round_double x =
     (if x = 0 then Fin 0
      else if 2 ^ 1024 - 2 ^ 970 \<le> \<bar>x\<bar> then inf_of_sign x
      else
        let e = max (binade \<bar>x\<bar>) (- 1022);
            q = 2 powi (e - 52)
        in Fin (of_int (rne (x / q)) * q))"

fun js_neg :: "jsnum \<Rightarrow> jsnum" where
  "js_neg (Fin a) = Fin (- a)"
| "js_neg PInf = NInf"
| "js_neg NInf = PInf"
| "js_neg NaN = NaN"

fun js_add :: "jsnum \<Rightarrow> jsnum \<Rightarrow> jsnum" where
  "js_add NaN _ = NaN"
| "js_add _ NaN = NaN"
| "js_add (Fin a) (Fin b) = round_double (a + b)"
| "js_add PInf NInf = NaN"
| "js_add NInf PInf = NaN"
| "js_add PInf _ = PInf"
| "js_add NInf _ = NInf"
| "js_add (Fin a) b = b"

definition js_sub :: "jsnum \<Rightarrow> jsnum \<Rightarrow> jsnum" where
  "js_sub a b = js_add a (js_neg b)"

fun js_mul :: "jsnum \<Rightarrow> jsnum \<Rightarrow> jsnum" where
  "js_mul NaN _ = NaN"
| "js_mul _ NaN = NaN"
| "js_mul (Fin a) (Fin b) = round_double (a * b)"
| "js_mul (Fin a) PInf = (if a = 0 then NaN else inf_of_sign a)"
| "js_mul (Fin a) NInf = (if a = 0 then NaN else inf_of_sign (- a))"
| "js_mul PInf (Fin b) = (if b = 0 then NaN else inf_of_sign b)"
| "js_mul NInf (Fin b) = (if b = 0 then NaN else inf_of_sign (- b))"
| "js_mul PInf PInf = PInf"
| "js_mul NInf NInf = PInf"
| "js_mul PInf NInf = NInf"
| "js_mul NInf PInf = NInf"

fun js_div :: "jsnum \<Rightarrow> jsnum \<Rightarrow> jsnum" where
  "js_div NaN _ = NaN"
| "js_div _ NaN = NaN"
| "js_div (Fin a) (Fin b) =
     (if b = 0 then (if a = 0 then NaN else inf_of_sign a) else round_double (a / b))"
| "js_div (Fin a) PInf = Fin 0"
| "js_div (Fin a) NInf = Fin 0"
| "js_div PInf (Fin b) = (if 0 \<le> b then PInf else NInf)"
| "js_div NInf (Fin b) = (if 0 \<le> b then NInf else PInf)"
| "js_div PInf PInf = NaN"
| "js_div PInf NInf = NaN"
| "js_div NInf PInf = NaN"
| "js_div NInf NInf = NaN"

text \<open>\<open>Math.max\<close> of two arguments: \<open>NaN\<close> if either is \<open>NaN\<close>.\<close>

fun Math_max :: "jsnum \<Rightarrow> jsnum \<Rightarrow> jsnum" where
  "Math_max NaN _ = NaN"
| "Math_max _ NaN = NaN"
| "Math_max (Fin a) (Fin b) = Fin (max a b)"
| "Math_max PInf _ = PInf"
| "Math_max _ PInf = PInf"
| "Math_max NInf b = b"
| "Math_max a NInf = a"

text \<open>
  \<open>Math.round\<close> of a finite number: the nearest integer, a tie going to the larger one
  (\<open>Math.round(2.5) = 3\<close>, \<open>Math.round(-2.5) = -2\<close>).
\<close>

definition Math_round :: "real \<Rightarrow> int" where
  "Math_round x = \<lfloor>x + 1 / 2\<rfloor>"

section \<open>Value transforms\<close>

text \<open>
  Modelled from the spec: \<open>useTransform\<close> is imported from the package \<open>motion/react\<close>,
  whose code is not among the sources. The spec (sections 3, 4.3 and 4.5) gives its
  contract: an ordered list of (breakpoint, output) pairs defines a piecewise-linear
  interpolation, and outside the first and last breakpoint the result stays at the end
  value (the frame index is "clamped to [0, N-1]", an opacity is "exactly 0 outside its
  active window"). The definitions below follow that contract for increasing breakpoints:
  the progress is clamped to the range of the breakpoints, the segment is the first one
  whose right breakpoint lies beyond the clamped value (the last segment otherwise), and
  the output is mixed linearly inside the segment. \<open>App\<close> passes ranges of two to four
  breakpoints with as many outputs; for a range with fewer than two breakpoints the
  model gives the first output.
\<close>

definition clamp :: "real \<Rightarrow> real \<Rightarrow> real \<Rightarrow> real" where
  "clamp lo hi v = (if hi < v then hi else if v < lo then lo else v)"

definition progress :: "real \<Rightarrow> real \<Rightarrow> real \<Rightarrow> real" where
  "progress from to v = (if to - from = 0 then 1 else (v - from) / (to - from))"

definition mixNumber :: "real \<Rightarrow> real \<Rightarrow> real \<Rightarrow> real" where
  "mixNumber from to p = from + (to - from) * p"

fun interpolator :: "real list \<Rightarrow> real list \<Rightarrow> real \<Rightarrow> real" where
  "interpolator (a # b # c # xs) (ya # yb # ys) v =
     (if v < b then mixNumber ya yb (progress a b v)
      else interpolator (b # c # xs) (yb # ys) v)"
| "interpolator [a, b] (ya # yb # ys) v = mixNumber ya yb (progress a b v)"
| "interpolator _ (ya # ys) v = ya"
| "interpolator _ [] v = 0"

definition useTransform :: "real list \<Rightarrow> real list \<Rightarrow> real \<Rightarrow> real" where
  "useTransform inputRange outputRange v =
     interpolator inputRange outputRange (clamp (hd inputRange) (last inputRange) v)"

section \<open>The derived values of \<open>App\<close>\<close>

text \<open>Each takes the current value of \<open>smoothProgress\<close>.\<close>

definition frameIndex :: "real \<Rightarrow> real" where
  "frameIndex = useTransform [0, 1] [0, 143]"

definition text1Opacity :: "real \<Rightarrow> real" where
  "text1Opacity = useTransform [0, 0.15, 0.25, 0.35] [0, 1, 1, 0]"

definition text1Y :: "real \<Rightarrow> real" where
  "text1Y = useTransform [0, 0.15, 0.35] [50, 0, -50]"

definition text2Opacity :: "real \<Rightarrow> real" where
  "text2Opacity = useTransform [0.35, 0.5, 0.6, 0.7] [0, 1, 1, 0]"

definition text2Y :: "real \<Rightarrow> real" where
  "text2Y = useTransform [0.35, 0.5, 0.7] [50, 0, -50]"

definition text3Opacity :: "real \<Rightarrow> real" where
  "text3Opacity = useTransform [0.7, 0.85, 0.95, 1] [0, 1, 1, 0]"

definition text3Y :: "real \<Rightarrow> real" where
  "text3Y = useTransform [0.7, 0.85, 1] [50, 0, -50]"

section \<open>The frame sequence\<close>

text \<open>\<open>String(n)\<close> for a natural number: its decimal digits, most significant first.\<close>

definition digit_char :: "nat \<Rightarrow> char" where
  "digit_char d = ''0123456789'' ! d"

fun String_of_nat :: "nat \<Rightarrow> string" where
  "String_of_nat n =
     (if n < 10 then [digit_char n]
      else String_of_nat (n div 10) @ [digit_char (n mod 10)])"

text \<open>
  \<open>s.padStart(targetLength, padString)\<close>: \<open>s\<close> itself when it is long enough or the pad is
  empty, otherwise the pad repeated and cut to the missing length, then \<open>s\<close>.
\<close>

definition padStart :: "nat \<Rightarrow> string \<Rightarrow> string \<Rightarrow> string" where
  "padStart targetLength padString s =
     (if targetLength \<le> length s \<or> padString = [] then s
      else take (targetLength - length s)
             (concat (replicate (targetLength - length s) padString)) @ s)"

definition imagePaths :: "string list" where
  "imagePaths =
     map (\<lambda>i. ''/headphone-seqs/'' @ padStart 5 ''0'' (String_of_nat (i + 1)) @ ''.png'')
       [0..<144]"

text \<open>
  Reading a decimal numeral back, for the statement that a file name is its index plus
  one "zero-padded to 5 digits": this one follows the spec's words, not the code.
\<close>

definition is_digit :: "char \<Rightarrow> bool" where
  "is_digit c = (c \<in> set ''0123456789'')"

definition digit_value :: "char \<Rightarrow> nat" where
  "digit_value c = of_char c - 48"

definition decimal_value :: "string \<Rightarrow> nat" where
  "decimal_value s = foldl (\<lambda>acc c. 10 * acc + digit_value c) 0 s"

section \<open>Arrays with holes\<close>

text \<open>
  A JavaScript array whose slots may be empty: \<open>None\<close> is a hole (it reads as
  \<open>undefined\<close>). A read at an index that is negative or beyond the length is \<open>undefined\<close>
  too; a write beyond the length extends the array with holes.
\<close>

definition array_get :: "'a option list \<Rightarrow> int \<Rightarrow> 'a option" where
  "array_get xs k = (if 0 \<le> k \<and> k < int (length xs) then xs ! nat k else None)"

definition array_set :: "'a option list \<Rightarrow> nat \<Rightarrow> 'a \<Rightarrow> 'a option list" where
  "array_set xs i v =
     (if i < length xs then xs[i := Some v]
      else xs @ replicate (i - length xs) None @ [Some v])"

section \<open>The asset loader\<close>

text \<open>
  An \<open>HTMLImageElement\<close> is an object: arrays hold references to it (a reference is the
  number of elements created before it) and the store maps a reference to the element's
  fields. \<open>width\<close> and \<open>height\<close> are unsigned and are 0 until the image has loaded; they
  stay 0 when the load fails.
\<close>

record image =
  src :: string
  width :: nat
  height :: nat

definition new_Image :: image where
  "new_Image = \<lparr>src = [], width = 0, height = 0\<rparr>"

text \<open>
  The network decides each load: the decoded size of the resource at a path, or \<open>None\<close>
  when the load fails (\<open>onerror\<close>).
\<close>

type_synonym network = "string \<Rightarrow> (nat \<times> nat) option"

text \<open>
  What the loader does, in order: a load issued for an index, the batch \<open>[start, end)\<close>
  fully settled (\<open>await Promise.all\<close>), a snapshot handed to \<open>setImages\<close>, the timer
  that ends the loading screen set.
\<close>

datatype event =
  Issue nat
| Settled nat nat
| Publish "nat option list"
| ReadyTimer

record loader =
  loadedImages :: "nat option list"
  heap :: "nat \<Rightarrow> image"
  allocated :: nat
  images :: "nat option list"
  log :: "event list"

definition initial_loader :: loader where
  "initial_loader =
     \<lparr>loadedImages = [], heap = (\<lambda>_. new_Image), allocated = 0, images = [], log = []\<rparr>"

definition BATCH_SIZE :: nat where
  "BATCH_SIZE = 5"

text \<open>
  The body of the \<open>for\<close> loop of \<open>loadBatch\<close>. The executor of a promise runs at once:
  the element is created, its \<open>src\<close> set and the element stored at \<open>loadedImages[i]\<close>
  before anything has loaded. The second component is \<open>batchPromises\<close>, each promise
  named by the element it waits for. \<open>i\<close> is below \<open>imagePaths.length\<close> here.
\<close>

definition issue :: "nat \<Rightarrow> loader \<times> nat list \<Rightarrow> loader \<times> nat list" where
  "issue i = (\<lambda>(s, batchPromises).
     let img = allocated s in
     (s\<lparr>heap := (heap s)(img := new_Image\<lparr>src := imagePaths ! i\<rparr>),
        allocated := Suc img,
        loadedImages := array_set (loadedImages s) i img,
        log := log s @ [Issue i]\<rparr>,
      batchPromises @ [img]))"

text \<open>
  One promise resolving: \<open>onload\<close> and \<open>onerror\<close> both call \<open>resolve()\<close> and write
  nothing; the browser has set the size of a loaded image.
\<close>

definition settle :: "network \<Rightarrow> nat \<Rightarrow> loader \<Rightarrow> loader" where
  "settle net img s =
     (case net (src (heap s img)) of
        None \<Rightarrow> s
      | Some (w, h) \<Rightarrow> s\<lparr>heap := (heap s)(img := (heap s img)\<lparr>width := w, height := h\<rparr>)\<rparr>)"

text \<open>
  \<open>loadBatch\<close>: the loads of one batch are issued in index order, then all of them are
  awaited. The promises of a batch settle in any order; they write to different
  elements, so the model settles them in the order they were issued.
\<close>

definition loadBatch :: "network \<Rightarrow> nat \<Rightarrow> loader \<Rightarrow> loader" where
  "loadBatch net startIndex s =
     (let endIndex = min (startIndex + BATCH_SIZE) (length imagePaths);
          (s1, batchPromises) = fold issue [startIndex..<endIndex] (s, []);
          s2 = fold (settle net) batchPromises s1
      in s2\<lparr>log := log s2 @ [Settled startIndex endIndex]\<rparr>)"

text \<open>\<open>setImages([...loadedImages])\<close>: a copy of the array becomes the published state.\<close>

definition setImages :: "nat option list \<Rightarrow> loader \<Rightarrow> loader" where
  "setImages snapshot s = s\<lparr>images := snapshot, log := log s @ [Publish snapshot]\<rparr>"

text \<open>\<open>setTimeout(() => setIsLoading(false), 800)\<close>: only the fact that it is set.\<close>

definition set_ready_timer :: "loader \<Rightarrow> loader" where
  "set_ready_timer s = s\<lparr>log := log s @ [ReadyTimer]\<rparr>"

text \<open>The loop of \<open>loadAllImages\<close>, from its counter \<open>i\<close>.\<close>

function loadAllImages_from :: "network \<Rightarrow> nat \<Rightarrow> loader \<Rightarrow> loader" where
  "loadAllImages_from net i s =
     (if i < length imagePaths then
        let s1 = loadBatch net i s;
            s2 = setImages (loadedImages s1) s1;
            s3 = (if i = 0 then set_ready_timer s2 else s2)
        in loadAllImages_from net (i + BATCH_SIZE) s3
      else s)"
  by pat_completeness auto
termination
  by (relation "measure (\<lambda>(net, i, s). length imagePaths - i)") (auto simp: BATCH_SIZE_def)

definition loadAllImages :: "network \<Rightarrow> loader \<Rightarrow> loader" where
  "loadAllImages net s = loadAllImages_from net 0 s"

text \<open>The snapshots handed to \<open>setImages\<close>, oldest first.\<close>

fun published :: "event list \<Rightarrow> nat option list list" where
  "published [] = []"
| "published (Publish snapshot # es) = snapshot # published es"
| "published (_ # es) = published es"

text \<open>The batches issued, as the lists of indices requested between two barriers.\<close>

fun batches_acc :: "nat list \<Rightarrow> event list \<Rightarrow> nat list list" where
  "batches_acc cur [] = (if cur = [] then [] else [cur])"
| "batches_acc cur (Issue i # es) = batches_acc (cur @ [i]) es"
| "batches_acc cur (Settled a b # es) = cur # batches_acc [] es"
| "batches_acc cur (_ # es) = batches_acc cur es"

definition batches :: "event list \<Rightarrow> nat list list" where
  "batches es = batches_acc [] es"

section \<open>The renderer\<close>

text \<open>
  The calls made on the 2D context, oldest first in \<open>calls\<close>. \<open>DrawImage\<close> carries the
  element and the eight numbers of \<open>ctx.drawImage(img, sx, sy, sw, sh, dx, dy, dw, dh)\<close>.
\<close>

datatype draw_call =
  ClearRect jsnum jsnum jsnum jsnum
| DrawImage nat jsnum jsnum jsnum jsnum jsnum jsnum jsnum jsnum

record canvas =
  cwidth :: nat
  cheight :: nat
  imageSmoothingEnabled :: bool
  imageSmoothingQuality :: string
  calls :: "draw_call list"

text \<open>
  A size read from the DOM as a number. The sizes are unsigned 32-bit integers, and every
  integer below \<open>2 ^ 53\<close> is a double, so nothing is rounded here.
\<close>

definition num :: "nat \<Rightarrow> jsnum" where
  "num n = Fin (real n)"

text \<open>
  \<open>render\<close>, a closure over the published \<open>images\<close> and the canvas. An element is an
  object and so never falsy: \<open>!img\<close> holds exactly when the slot reads \<open>undefined\<close>.
\<close>

definition render :: "nat option list \<Rightarrow> (nat \<Rightarrow> image) \<Rightarrow> real \<Rightarrow> canvas \<Rightarrow> canvas" where
  "render imgs store index c =
     (case array_get imgs (Math_round index) of
        None \<Rightarrow> c
      | Some img \<Rightarrow>
          let hRatio = js_div (num (cwidth c)) (num (width (store img)));
              vRatio = js_div (num (cheight c)) (num (height (store img)));
              ratio = Math_max hRatio vRatio;
              centerShift_x =
                js_div (js_sub (num (cwidth c)) (js_mul (num (width (store img))) ratio)) (Fin 2);
              centerShift_y =
                js_div (js_sub (num (cheight c)) (js_mul (num (height (store img))) ratio)) (Fin 2)
          in c\<lparr>imageSmoothingEnabled := True,
               imageSmoothingQuality := ''high'',
               calls := calls c @
                 [ClearRect (Fin 0) (Fin 0) (num (cwidth c)) (num (cheight c)),
                  DrawImage img (Fin 0) (Fin 0)
                    (num (width (store img))) (num (height (store img)))
                    centerShift_x centerShift_y
                    (js_mul (num (width (store img))) ratio)
                    (js_mul (num (height (store img))) ratio)]\<rparr>)"

text \<open>
  What the rendering effect touches: the canvas behind \<open>canvasRef.current\<close> (\<open>None\<close> is
  \<open>null\<close>), whether \<open>getContext("2d")\<close> gives a context, the size of the window, and how
  many handlers listen to the window's \<open>resize\<close> and to the changes of \<open>frameIndex\<close>.
\<close>

record page =
  canvasRef :: "canvas option"
  context2d :: bool
  innerWidth :: nat
  innerHeight :: nat
  resizeListeners :: nat
  changeSubscribers :: nat

text \<open>\<open>handleResize\<close> on the canvas; \<open>frameIndex.get()\<close> is \<open>frameIndex\<close> at the progress.\<close>

definition handleResize ::
  "nat option list \<Rightarrow> (nat \<Rightarrow> image) \<Rightarrow> real \<Rightarrow> page \<Rightarrow> canvas \<Rightarrow> canvas" where
  "handleResize imgs store smoothProgress pg c =
     render imgs store (frameIndex smoothProgress)
       (c\<lparr>cwidth := innerWidth pg, cheight := innerHeight pg\<rparr>)"

text \<open>The body of the effect, run with the published \<open>images\<close>, up to its \<open>return\<close>.\<close>

definition canvas_effect ::
  "nat option list \<Rightarrow> (nat \<Rightarrow> image) \<Rightarrow> real \<Rightarrow> page \<Rightarrow> page" where
  "canvas_effect imgs store smoothProgress pg =
     (if length imgs = 0 \<or> canvasRef pg = None then pg
      else
        case canvasRef pg of
          None \<Rightarrow> pg
        | Some c \<Rightarrow>
            if \<not> context2d pg then pg
            else
              let pg1 = pg\<lparr>resizeListeners := Suc (resizeListeners pg)\<rparr>;
                  pg2 = pg1\<lparr>canvasRef := Some (handleResize imgs store smoothProgress pg1 c)\<rparr>
              in pg2\<lparr>changeSubscribers := Suc (changeSubscribers pg2)\<rparr>)"

section \<open>Descriptions used in the statements\<close>

text \<open>
  The element behind index \<open>i\<close> once its load has settled: its \<open>src\<close> is the path, its size
  is the decoded size when the load succeeded and stays 0 by 0 when it failed.
\<close>

definition element_after :: "network \<Rightarrow> nat \<Rightarrow> image" where
  "element_after net i =
     (case net (imagePaths ! i) of
        None \<Rightarrow> new_Image\<lparr>src := imagePaths ! i\<rparr>
      | Some (w, h) \<Rightarrow> new_Image\<lparr>src := imagePaths ! i, width := w, height := h\<rparr>)"

text \<open>The effect of one settling promise on the store alone.\<close>

definition settle_heap :: "network \<Rightarrow> nat \<Rightarrow> (nat \<Rightarrow> image) \<Rightarrow> (nat \<Rightarrow> image)" where
  "settle_heap net r hp =
     (case net (src (hp r)) of
        None \<Rightarrow> hp
      | Some (w, h) \<Rightarrow> hp(r := (hp r)\<lparr>width := w, height := h\<rparr>))"

text \<open>
  The events of batch number \<open>k\<close> of a sequence of 144 paths loaded 5 at a time: the loads
  of its indices in order, the barrier, the publication of every index loaded so far, and
  after batch 0 the timer.
\<close>

definition batch_events :: "nat \<Rightarrow> event list" where
  "batch_events k =
     map Issue [5 * k..<min (5 * k + 5) 144] @
     [Settled (5 * k) (min (5 * k + 5) 144), Publish (map Some [0..<min (5 * k + 5) 144])] @
     (if k = 0 then [ReadyTimer] else [])"

section \<open>Sample inputs\<close>

text \<open>A network on which the 37th image (index 36) fails and every other one loads.\<close>

definition net37 :: network where
  "net37 path = (if path = ''/headphone-seqs/00037.png'' then None else Some (1920, 1080))"

definition sample_canvas :: canvas where
  "sample_canvas =
     \<lparr>cwidth = 800, cheight = 600, imageSmoothingEnabled = True,
      imageSmoothingQuality = ''low'', calls = []\<rparr>"

definition sample_store :: "nat \<Rightarrow> image" where
  "sample_store r = \<lparr>src = imagePaths ! r, width = 1920, height = 1080\<rparr>"

definition small_canvas :: canvas where
  "small_canvas =
     \<lparr>cwidth = 39, cheight = 39, imageSmoothingEnabled = True,
      imageSmoothingQuality = ''low'', calls = []\<rparr>"

declare String_of_nat.simps [simp del]

declare loadAllImages_from.simps [simp del]

section \<open>The frame sequence: paths\<close>

lemma digit_cases: "d < 10 \<Longrightarrow> d = 0 \<or> d = 1 \<or> d = 2 \<or> d = 3 \<or> d = 4 \<or> d = 5 \<or> d = 6 \<or> d = 7 \<or> d = 8 \<or> d = (9::nat)"
  by arith

lemma digit_value_digit_char: "d < 10 \<Longrightarrow> digit_value (digit_char d) = d"
  by (drule digit_cases) (auto simp: digit_value_def digit_char_def)

lemma is_digit_digit_char: "d < 10 \<Longrightarrow> is_digit (digit_char d)"
  by (drule digit_cases) (auto simp: is_digit_def digit_char_def)

lemma decimal_value_snoc: "decimal_value (s @ [c]) = 10 * decimal_value s + digit_value c"
  by (simp add: decimal_value_def)

lemma decimal_value_String_of_nat: "decimal_value (String_of_nat n) = n"
proof (induction n rule: String_of_nat.induct)
  case (1 n)
  show ?case
  proof (cases "n < 10")
    case True
    then show ?thesis
      by (subst String_of_nat.simps) (simp add: decimal_value_def digit_value_digit_char)
  next
    case False
    with 1 show ?thesis
      by (subst String_of_nat.simps) (simp add: decimal_value_snoc digit_value_digit_char)
  qed
qed

lemma digits_String_of_nat: "c \<in> set (String_of_nat n) \<Longrightarrow> is_digit c"
proof (induction n rule: String_of_nat.induct)
  case (1 n)
  show ?case
  proof (cases "n < 10")
    case True
    with "1.prems" show ?thesis
      by (subst (asm) String_of_nat.simps) (auto simp: is_digit_digit_char)
  next
    case False
    with 1 show ?thesis
      by (subst (asm) (2) String_of_nat.simps) (auto simp: is_digit_digit_char)
  qed
qed

lemma length_String_of_nat: "n < 10 ^ k \<Longrightarrow> 0 < k \<Longrightarrow> length (String_of_nat n) \<le> k"
proof (induction n arbitrary: k rule: String_of_nat.induct)
  case (1 n)
  show ?case
  proof (cases "n < 10")
    case True
    with "1.prems" show ?thesis
      by (subst String_of_nat.simps) simp
  next
    case False
    obtain j where k: "k = Suc j" using "1.prems"(2) by (cases k) auto
    have "j \<noteq> 0" using False "1.prems"(1) k by (cases j) auto
    moreover have "n div 10 < 10 ^ j" using "1.prems"(1) k by (simp add: less_mult_imp_div_less mult.commute)
    ultimately have "length (String_of_nat (n div 10)) \<le> j"
      using "1.IH" [OF False, of j] by simp
    then show ?thesis
      by (subst String_of_nat.simps) (simp add: False k)
  qed
qed

lemma padStart_zero:
  "length s \<le> n \<Longrightarrow> padStart n ''0'' s = replicate (n - length s) CHR ''0'' @ s"
  by (induction "n - length s") (auto simp: padStart_def)

lemma length_imagePaths: "length imagePaths = 144"
  by (simp add: imagePaths_def)

lemma decimal_value_zeros: "decimal_value (replicate n CHR ''0'' @ s) = decimal_value s"
proof -
  have "foldl (\<lambda>acc c. 10 * acc + digit_value c) 0 (replicate n CHR ''0'') = 0"
    by (induction n) (simp_all add: digit_value_def)
  then show ?thesis by (simp add: decimal_value_def)
qed

lemma is_digit_zero: "is_digit CHR ''0''"
  by (simp add: is_digit_def)

lemma imagePaths_nth:
  "i < 144 \<Longrightarrow> imagePaths ! i =
     ''/headphone-seqs/'' @ padStart 5 ''0'' (String_of_nat (i + 1)) @ ''.png''"
  by (simp add: imagePaths_def del: upt.simps)

lemma file_name:
  assumes "i < 144"
  shows "length (padStart 5 ''0'' (String_of_nat (i + 1))) = 5"
    and "\<forall>c\<in>set (padStart 5 ''0'' (String_of_nat (i + 1))). is_digit c"
    and "decimal_value (padStart 5 ''0'' (String_of_nat (i + 1))) = i + 1"
proof -
  have "i + 1 < 10 ^ 5" using assms by simp
  then have len: "length (String_of_nat (i + 1)) \<le> 5"
    by (rule length_String_of_nat) simp
  note p = padStart_zero [OF len]
  show "length (padStart 5 ''0'' (String_of_nat (i + 1))) = 5"
    unfolding p using len by simp
  show "\<forall>c\<in>set (padStart 5 ''0'' (String_of_nat (i + 1))). is_digit c"
    unfolding p using digits_String_of_nat is_digit_zero
    by auto
  show "decimal_value (padStart 5 ''0'' (String_of_nat (i + 1))) = i + 1"
    unfolding p by (simp only: decimal_value_zeros decimal_value_String_of_nat)
qed

lemma file_name_1: "padStart 5 ''0'' (String_of_nat (0 + 1)) = ''00001''"
  by code_simp

lemma file_name_37: "padStart 5 ''0'' (String_of_nat (36 + 1)) = ''00037''"
  by code_simp

lemma file_name_144: "padStart 5 ''0'' (String_of_nat (143 + 1)) = ''00144''"
  by code_simp

lemma imagePaths_36: "imagePaths ! 36 = ''/headphone-seqs/00037.png''"
proof -
  have "imagePaths ! 36 = ''/headphone-seqs/'' @ padStart 5 ''0'' (String_of_nat (36 + 1)) @ ''.png''"
    by (rule imagePaths_nth) simp
  then show ?thesis unfolding file_name_37 by simp
qed

text \<open>
  Claim C9. \<open>imagePaths\<close> has exactly 144 entries; the entry at index \<open>i\<close> is the prefix
  \<open>/headphone-seqs/\<close>, then five decimal digits whose value is \<open>i + 1\<close>, then \<open>.png\<close>; the
  first entry ends in \<open>00001.png\<close> and the last in \<open>00144.png\<close>.
\<close>

theorem image_paths_pattern: "length imagePaths = 144 \<and>
   (i < 144 \<longrightarrow> (\<exists>d. imagePaths ! i = ''/headphone-seqs/'' @ d @ ''.png'' \<and> length d = 5 \<and>
       (\<forall>c\<in>set d. is_digit c) \<and> decimal_value d = i + 1)) \<and>
   imagePaths ! 0 = ''/headphone-seqs/00001.png'' \<and>
   imagePaths ! 143 = ''/headphone-seqs/00144.png''"
proof -
  have a: "i < 144 \<longrightarrow> (\<exists>d. imagePaths ! i = ''/headphone-seqs/'' @ d @ ''.png'' \<and> length d = 5 \<and>
       (\<forall>c\<in>set d. is_digit c) \<and> decimal_value d = i + 1)"
    using imagePaths_nth file_name by blast
  have "imagePaths ! 0 = ''/headphone-seqs/'' @ padStart 5 ''0'' (String_of_nat (0 + 1)) @ ''.png''"
    by (rule imagePaths_nth) simp
  then have b: "imagePaths ! 0 = ''/headphone-seqs/00001.png''"
    unfolding file_name_1 by simp
  have "imagePaths ! 143 = ''/headphone-seqs/'' @ padStart 5 ''0'' (String_of_nat (143 + 1)) @ ''.png''"
    by (rule imagePaths_nth) simp
  then have c: "imagePaths ! 143 = ''/headphone-seqs/00144.png''"
    unfolding file_name_144 by simp
  from a b c length_imagePaths show ?thesis by blast
qed

theorem image_paths_pattern_witness:
  "(36::nat) < 144 \<and>
   (\<exists>d. imagePaths ! 36 = ''/headphone-seqs/'' @ d @ ''.png'' \<and> length d = 5 \<and>
       (\<forall>c\<in>set d. is_digit c) \<and> decimal_value d = 36 + 1)"
proof -
  have a: "(36::nat) < 144" by simp
  with image_paths_pattern [of 36] show ?thesis by blast
qed

section \<open>Frame selection and overlays\<close>

lemma frameIndex_eq: "frameIndex p = (if 1 < p then 143 else if p < 0 then 0 else 143 * p)"
  by (simp add: frameIndex_def useTransform_def clamp_def mixNumber_def progress_def)

text \<open>
  Claim C1. For a progress \<open>p\<close> in [0,1] the index that \<open>render\<close> selects,
  \<open>Math.round(frameIndex)\<close>, is \<open>round (p * (N - 1))\<close> with \<open>N = 144\<close> the number of paths;
  for every real \<open>p\<close>, also below 0 and above 1, it lies in [0, 143]; at \<open>p = 0\<close> it is 0
  and at \<open>p = 1\<close> it is 143.
\<close>

theorem frame_index_selected: "(0 \<le> p \<and> p \<le> 1 \<longrightarrow> Math_round (frameIndex p) = round (p * (real (length imagePaths) - 1)))
  \<and> 0 \<le> Math_round (frameIndex p) \<and> Math_round (frameIndex p) \<le> 143
  \<and> Math_round (frameIndex 0) = 0 \<and> Math_round (frameIndex 1) = 143"
proof -
  have a: "0 \<le> p \<and> p \<le> 1 \<longrightarrow> Math_round (frameIndex p) = round (p * (real (length imagePaths) - 1))"
    by (simp add: frameIndex_eq length_imagePaths Math_round_def round_def mult.commute)
  have b: "0 \<le> Math_round (frameIndex p)" 
    by (simp add: frameIndex_eq Math_round_def)
  have c: "Math_round (frameIndex p) \<le> 143"
    by (simp add: frameIndex_eq Math_round_def)
  have d: "Math_round (frameIndex 0) = 0" "Math_round (frameIndex 1) = 143"
    by (simp_all add: frameIndex_eq Math_round_def)
  from a b c d show ?thesis by blast
qed

theorem frame_index_selected_witness: "(0::real) \<le> 1 / 2 \<and> (1 / 2 :: real) \<le> 1 \<and> Math_round (frameIndex (1 / 2)) = 72
   \<and> round (1 / 2 * (real (length imagePaths) - 1)) = 72"
proof -
  have "round (1 / 2 * (real (length imagePaths) - 1)) = 72"
    by (simp add: length_imagePaths round_def)
  then show ?thesis using frame_index_selected [of "1 / 2"] by simp
qed

lemma text1Opacity_eq: "text1Opacity p = (if p \<le> 0 then 0 else if p < 0.15 then p / 0.15 else if p < 0.25 then 1 else if p < 0.35 then 1 - (p - 0.25) / 0.1 else 0)"
  by (simp add: text1Opacity_def useTransform_def clamp_def mixNumber_def progress_def)

lemma text2Opacity_eq: "text2Opacity p = (if p \<le> 0.35 then 0 else if p < 0.5 then (p - 0.35) / 0.15 else if p < 0.6 then 1 else if p < 0.7 then 1 - (p - 0.6) / 0.1 else 0)"
  by (simp add: text2Opacity_def useTransform_def clamp_def mixNumber_def progress_def)

lemma text3Opacity_eq: "text3Opacity p = (if p \<le> 0.7 then 0 else if p < 0.85 then (p - 0.7) / 0.15 else if p < 0.95 then 1 else if p < 1 then 1 - (p - 0.95) / 0.05 else 0)"
  by (simp add: text3Opacity_def useTransform_def clamp_def mixNumber_def progress_def)

lemma text1Y_eq: "text1Y p = (if p \<le> 0 then 50 else if p < 0.15 then 50 - 50 * (p / 0.15) else if p < 0.35 then - 50 * ((p - 0.15) / 0.2) else -50)"
  by (simp add: text1Y_def useTransform_def clamp_def mixNumber_def progress_def)

lemma text2Y_eq: "text2Y p = (if p \<le> 0.35 then 50 else if p < 0.5 then 50 - 50 * ((p - 0.35) / 0.15) else if p < 0.7 then - 50 * ((p - 0.5) / 0.2) else -50)"
  by (auto simp: text2Y_def useTransform_def clamp_def mixNumber_def progress_def field_simps)

lemma text3Y_eq: "text3Y p = (if p \<le> 0.7 then 50 else if p < 0.85 then 50 - 50 * ((p - 0.7) / 0.15) else if p < 1 then - 50 * ((p - 0.85) / 0.15) else -50)"
  by (auto simp: text3Y_def useTransform_def clamp_def mixNumber_def progress_def field_simps)

text \<open>
  Claim C6. Each of the three opacities is 0 at progress 0 and at progress 1 and at every
  progress of [0,1] outside its window ([0,0.35], [0.35,0.7], [0.7,1]; the ends of the
  window included), and is exactly 1 on its hold range ([0.15,0.25], [0.5,0.6],
  [0.85,0.95]). At progress 0.5 the second is 1 and the first and third are 0.
\<close>

theorem overlay_opacity_windows:
  "text1Opacity 0 = 0 \<and> text1Opacity 1 = 0 \<and>
   text2Opacity 0 = 0 \<and> text2Opacity 1 = 0 \<and>
   text3Opacity 0 = 0 \<and> text3Opacity 1 = 0 \<and>
   (0 \<le> p \<and> p \<le> 1 \<and> (p \<le> 0 \<or> 0.35 \<le> p) \<longrightarrow> text1Opacity p = 0) \<and>
   (0 \<le> p \<and> p \<le> 1 \<and> (p \<le> 0.35 \<or> 0.7 \<le> p) \<longrightarrow> text2Opacity p = 0) \<and>
   (0 \<le> p \<and> p \<le> 1 \<and> (p \<le> 0.7 \<or> 1 \<le> p) \<longrightarrow> text3Opacity p = 0) \<and>
   (0.15 \<le> p \<and> p \<le> 0.25 \<longrightarrow> text1Opacity p = 1) \<and>
   (0.5 \<le> p \<and> p \<le> 0.6 \<longrightarrow> text2Opacity p = 1) \<and>
   (0.85 \<le> p \<and> p \<le> 0.95 \<longrightarrow> text3Opacity p = 1) \<and>
   text1Opacity 0.5 = 0 \<and> text2Opacity 0.5 = 1 \<and> text3Opacity 0.5 = 0"
proof -
  have e1: "text1Opacity 0 = 0" "text1Opacity 1 = 0" "text1Opacity 0.5 = 0"
    by (simp_all add: text1Opacity_eq)
  have e2: "text2Opacity 0 = 0" "text2Opacity 1 = 0" "text2Opacity 0.5 = 1"
    by (simp_all add: text2Opacity_eq)
  have e3: "text3Opacity 0 = 0" "text3Opacity 1 = 0" "text3Opacity 0.5 = 0"
    by (simp_all add: text3Opacity_eq)
  have o1: "0 \<le> p \<and> p \<le> 1 \<and> (p \<le> 0 \<or> 0.35 \<le> p) \<longrightarrow> text1Opacity p = 0"
    by (auto simp: text1Opacity_eq)
  have o2: "0 \<le> p \<and> p \<le> 1 \<and> (p \<le> 0.35 \<or> 0.7 \<le> p) \<longrightarrow> text2Opacity p = 0"
    by (auto simp: text2Opacity_eq)
  have o3: "0 \<le> p \<and> p \<le> 1 \<and> (p \<le> 0.7 \<or> 1 \<le> p) \<longrightarrow> text3Opacity p = 0"
    by (auto simp: text3Opacity_eq)
  have h1: "0.15 \<le> p \<and> p \<le> 0.25 \<longrightarrow> text1Opacity p = 1"
    by (auto simp: text1Opacity_eq)
  have h2: "0.5 \<le> p \<and> p \<le> 0.6 \<longrightarrow> text2Opacity p = 1"
    by (auto simp: text2Opacity_eq)
  have h3: "0.85 \<le> p \<and> p \<le> 0.95 \<longrightarrow> text3Opacity p = 1"
    by (auto simp: text3Opacity_eq)
  from e1 e2 e3 o1 o2 o3 h1 h2 h3 show ?thesis by blast
qed

theorem overlay_opacity_windows_witness:
  "text1Opacity 0.8 = 0 \<and> text2Opacity 0.2 = 0 \<and> text3Opacity 0.2 = 0 \<and>
   text1Opacity 0.2 = 1 \<and> text2Opacity 0.55 = 1 \<and> text3Opacity 0.9 = 1"
  using overlay_opacity_windows [of "0.8"] overlay_opacity_windows [of "0.2"] overlay_opacity_windows [of "0.55"] overlay_opacity_windows [of "0.9"] by simp

text \<open>
  Claim C8. Each vertical offset is 50 at the start of its window, exactly 0 at its hold
  point and -50 at the end of its window, and between these breakpoints it is the linear
  mix of the two neighbouring outputs.
\<close>

theorem overlay_offset_arc:
  "text1Y 0 = 50 \<and> text1Y 0.15 = 0 \<and> text1Y 0.35 = -50 \<and>
   text2Y 0.35 = 50 \<and> text2Y 0.5 = 0 \<and> text2Y 0.7 = -50 \<and>
   text3Y 0.7 = 50 \<and> text3Y 0.85 = 0 \<and> text3Y 1 = -50 \<and>
   (0 \<le> p \<and> p \<le> 0.15 \<longrightarrow> text1Y p = 50 + (0 - 50) * ((p - 0) / (0.15 - 0))) \<and>
   (0.15 \<le> p \<and> p \<le> 0.35 \<longrightarrow> text1Y p = 0 + (-50 - 0) * ((p - 0.15) / (0.35 - 0.15))) \<and>
   (0.35 \<le> p \<and> p \<le> 0.5 \<longrightarrow> text2Y p = 50 + (0 - 50) * ((p - 0.35) / (0.5 - 0.35))) \<and>
   (0.5 \<le> p \<and> p \<le> 0.7 \<longrightarrow> text2Y p = 0 + (-50 - 0) * ((p - 0.5) / (0.7 - 0.5))) \<and>
   (0.7 \<le> p \<and> p \<le> 0.85 \<longrightarrow> text3Y p = 50 + (0 - 50) * ((p - 0.7) / (0.85 - 0.7))) \<and>
   (0.85 \<le> p \<and> p \<le> 1 \<longrightarrow> text3Y p = 0 + (-50 - 0) * ((p - 0.85) / (1 - 0.85)))"
proof -
  have e1: "text1Y 0 = 50" "text1Y 0.15 = 0" "text1Y 0.35 = -50"
    by (simp_all add: text1Y_eq)
  have e2: "text2Y 0.35 = 50" "text2Y 0.5 = 0" "text2Y 0.7 = -50"
    by (simp_all add: text2Y_eq)
  have e3: "text3Y 0.7 = 50" "text3Y 0.85 = 0" "text3Y 1 = -50"
    by (simp_all add: text3Y_eq)
  have a1: "0 \<le> p \<and> p \<le> 0.15 \<longrightarrow> text1Y p = 50 + (0 - 50) * ((p - 0) / (0.15 - 0))"
    by (auto simp: text1Y_eq field_simps)
  have b1: "0.15 \<le> p \<and> p \<le> 0.35 \<longrightarrow> text1Y p = 0 + (-50 - 0) * ((p - 0.15) / (0.35 - 0.15))"
    by (auto simp: text1Y_eq field_simps)
  have a2: "0.35 \<le> p \<and> p \<le> 0.5 \<longrightarrow> text2Y p = 50 + (0 - 50) * ((p - 0.35) / (0.5 - 0.35))"
    by (auto simp: text2Y_eq field_simps)
  have b2: "0.5 \<le> p \<and> p \<le> 0.7 \<longrightarrow> text2Y p = 0 + (-50 - 0) * ((p - 0.5) / (0.7 - 0.5))"
    by (auto simp: text2Y_eq field_simps)
  have a3: "0.7 \<le> p \<and> p \<le> 0.85 \<longrightarrow> text3Y p = 50 + (0 - 50) * ((p - 0.7) / (0.85 - 0.7))"
    by (auto simp: text3Y_eq field_simps)
  have b3: "0.85 \<le> p \<and> p \<le> 1 \<longrightarrow> text3Y p = 0 + (-50 - 0) * ((p - 0.85) / (1 - 0.85))"
    by (auto simp: text3Y_eq field_simps)
  from e1 e2 e3 a1 b1 a2 b2 a3 b3 show ?thesis by blast
qed

theorem overlay_offset_arc_witness:
  "text1Y 0.075 = 25 \<and> text1Y 0.25 = -25 \<and> text2Y 0.425 = 25 \<and> text2Y 0.6 = -25 \<and>
   text3Y 0.775 = 25 \<and> text3Y 0.925 = -25"
  using overlay_offset_arc [of "0.075"] overlay_offset_arc [of "0.25"] overlay_offset_arc [of "0.425"] overlay_offset_arc [of "0.6"] overlay_offset_arc [of "0.775"]
    overlay_offset_arc [of "0.925"]
  by simp

section \<open>The loader\<close>

lemma array_set_dense: "array_set (map Some [0..<a]) a a = map Some [0..<Suc a]"
  by (simp add: array_set_def)

lemma fold_issue:
  assumes "a \<le> b" "loadedImages s = map Some [0..<a]" "allocated s = a"
  shows "fold issue [a..<b] (s, ps) =
     (s\<lparr>heap := (\<lambda>r. if a \<le> r \<and> r < b then new_Image\<lparr>src := imagePaths ! r\<rparr> else heap s r),
        allocated := b,
        loadedImages := map Some [0..<b],
        log := log s @ map Issue [a..<b]\<rparr>, ps @ [a..<b])"
  using assms
proof (induction b rule: dec_induct)
  case base
  then show ?case by (cases s) (auto simp: fun_eq_iff)
next
  case (step n)
  then show ?case
    by (cases s) (auto simp: issue_def Let_def array_set_dense fun_eq_iff)
qed

lemma settle_alt: "settle net r s = s\<lparr>heap := settle_heap net r (heap s)\<rparr>"
  by (cases s) (auto simp: settle_def settle_heap_def split: option.splits)

lemma fold_settle:
  "fold (settle net) rs s = s\<lparr>heap := fold (settle_heap net) rs (heap s)\<rparr>"
  by (induction rs arbitrary: s) (simp_all add: settle_alt)

lemma fold_settle_heap:
  assumes "a \<le> b" "\<forall>r. a \<le> r \<and> r < b \<longrightarrow> hp r = new_Image\<lparr>src := imagePaths ! r\<rparr>" 
  shows "fold (settle_heap net) [a..<b] hp
     = (\<lambda>r. if a \<le> r \<and> r < b then element_after net r else hp r)"
  using assms
proof (induction b rule: dec_induct)
  case base
  then show ?case by (auto simp: fun_eq_iff)
next
  case (step n)
  then show ?case
    by (auto simp: fun_eq_iff element_after_def settle_heap_def new_Image_def less_Suc_eq
          split: option.splits)
qed

lemma loadBatch_eq:
  assumes "a < 144" "loadedImages s = map Some [0..<a]" "allocated s = a"
  shows "loadBatch net a s =
     s\<lparr>heap := (\<lambda>r. if a \<le> r \<and> r < min (a + 5) 144 then element_after net r else heap s r),
        allocated := min (a + 5) 144,
        loadedImages := map Some [0..<min (a + 5) 144],
        log := log s @ map Issue [a..<min (a + 5) 144] @ [Settled a (min (a + 5) 144)]\<rparr>"
proof -
  define b where "b = min (a + 5) 144"
  have le: "a \<le> b" using assms(1) by (simp add: b_def)
  define hp where "hp = (\<lambda>r. if a \<le> r \<and> r < b then new_Image\<lparr>src := imagePaths ! r\<rparr> else heap s r)"
  have hp: "\<forall>r. a \<le> r \<and> r < b \<longrightarrow> hp r = new_Image\<lparr>src := imagePaths ! r\<rparr>"
    by (simp add: hp_def)
  have "loadBatch net a s =
      (case fold issue [a..<b] (s, []) of (s1, batchPromises) \<Rightarrow>
         (fold (settle net) batchPromises s1)\<lparr>log := log (fold (settle net) batchPromises s1) @ [Settled a b]\<rparr>)"
    by (simp add: loadBatch_def Let_def BATCH_SIZE_def length_imagePaths b_def)
  also have "\<dots> = s\<lparr>heap := (\<lambda>r. if a \<le> r \<and> r < b then element_after net r else hp r),
        allocated := b,
        loadedImages := map Some [0..<b],
        log := log s @ map Issue [a..<b] @ [Settled a b]\<rparr>"
    unfolding fold_issue [OF le assms(2,3)] hp_def [symmetric]
    by (cases s) (simp add: fold_settle fold_settle_heap [OF le hp])
  also have "(\<lambda>r. if a \<le> r \<and> r < b then element_after net r else hp r) = 
     (\<lambda>r. if a \<le> r \<and> r < b then element_after net r else heap s r)"
    by (auto simp: hp_def fun_eq_iff)
  finally show ?thesis by (simp add: b_def)
qed

lemma loop_done: "144 \<le> i \<Longrightarrow> loadAllImages_from net i s = s"
  by (subst loadAllImages_from.simps) (simp add: length_imagePaths)

lemma loop_step:
  assumes "i < 144"
  shows "loadAllImages_from net i s =
     loadAllImages_from net (i + 5)
       (let s1 = loadBatch net i s; s2 = setImages (loadedImages s1) s1
        in if i = 0 then set_ready_timer s2 else s2)"
  by (subst loadAllImages_from.simps) (simp add: length_imagePaths assms Let_def BATCH_SIZE_def)

lemma body_eq:
  assumes "k < 29" "loadedImages s = map Some [0..<5 * k]" "allocated s = 5 * k"
  shows "(let s1 = loadBatch net (5 * k) s; s2 = setImages (loadedImages s1) s1
        in if 5 * k = 0 then set_ready_timer s2 else s2) =
      s\<lparr>heap := (\<lambda>r. if 5 * k \<le> r \<and> r < min (5 * k + 5) 144 then element_after net r else heap s r),
        allocated := min (5 * k + 5) 144,
        loadedImages := map Some [0..<min (5 * k + 5) 144],
        images := map Some [0..<min (5 * k + 5) 144],
        log := log s @ batch_events k\<rparr>"
proof -
  have lt: "5 * k < 144" using assms(1) by simp
  show ?thesis
    unfolding loadBatch_eq [OF lt assms(2,3)] Let_def
    by (cases s) (auto simp: setImages_def set_ready_timer_def batch_events_def fun_eq_iff)
qed

lemma loop_eq:
  assumes "k < 29" "loadedImages s = map Some [0..<5 * k]" "allocated s = 5 * k"
  shows "loadAllImages_from net (5 * k) s =
      s\<lparr>heap := (\<lambda>r. if 5 * k \<le> r \<and> r < 144 then element_after net r else heap s r),
        allocated := 144,
        loadedImages := map Some [0..<144],
        images := map Some [0..<144],
        log := log s @ concat (map batch_events [k..<29])\<rparr>"
  using assms
proof (induction "28 - k" arbitrary: k s)
  case 0
  then have k: "k = 28" by simp
  have lt: "5 * k < 144" by (simp add: k)
  show ?case
    unfolding loop_step [OF lt] body_eq [OF "0.prems"]
    by (cases s) (simp add: k loop_done fun_eq_iff)
next
  case (Suc n)
  then have k: "k < 28" "Suc k < 29" "n = 28 - Suc k" by simp_all
  have lt: "5 * k < 144" using k by simp
  have m: "min (5 * k + 5) 144 = 5 * Suc k" using k by simp
  have up: "[k..<29] = k # [Suc k..<29]" using k by (simp add: upt_conv_Cons)
  define s' where "s' = s\<lparr>heap := (\<lambda>r. if 5 * k \<le> r \<and> r < min (5 * k + 5) 144 then element_after net r else heap s r),
        allocated := min (5 * k + 5) 144,
        loadedImages := map Some [0..<min (5 * k + 5) 144],
        images := map Some [0..<min (5 * k + 5) 144],
        log := log s @ batch_events k\<rparr>"
  have a: "loadedImages s' = map Some [0..<5 * Suc k]" "allocated s' = 5 * Suc k"
    by (simp_all add: s'_def m)
  have "loadAllImages_from net (5 * k) s = loadAllImages_from net (5 * Suc k) s'"
    unfolding loop_step [OF lt] body_eq [OF Suc.prems] s'_def by (simp add: add.commute)
  also note Suc.hyps(1) [OF k(3) k(2) a]
  finally show ?case
    by (cases s) (auto simp: s'_def up fun_eq_iff)
qed

lemma loadAllImages_eq:
  "loadAllImages net initial_loader =
      \<lparr>loadedImages = map Some [0..<144], heap = (\<lambda>r. if r < 144 then element_after net r else new_Image),
        allocated = 144,
        images = map Some [0..<144],
        log = concat (map batch_events [0..<29])\<rparr>"
proof -
  have "loadAllImages_from net (5 * 0) initial_loader =
      initial_loader\<lparr>heap := (\<lambda>r. if 5 * 0 \<le> r \<and> r < 144 then element_after net r
                                 else heap initial_loader r),
        allocated := 144,
        loadedImages := map Some [0..<144],
        images := map Some [0..<144],
        log := log initial_loader @ concat (map batch_events [0..<29])\<rparr>"
    by (rule loop_eq) (simp_all add: initial_loader_def)
  then show ?thesis
    by (simp add: loadAllImages_def initial_loader_def cong: if_cong)
qed

lemma published_append: "published (xs @ ys) = published xs @ published ys"
  by (induction xs rule: published.induct) simp_all

lemma published_Issues: "published (map Issue xs) = []"
  by (induction xs) simp_all

lemma published_batch_events:
  "published (batch_events k) = [map Some [0..<min (5 * k + 5) 144]]"
  by (simp add: batch_events_def published_append published_Issues del: upt.simps)

lemma published_trace:
  "published (concat (map batch_events ks)) = map (\<lambda>k. map Some [0..<min (5 * k + 5) 144]) ks"
  by (induction ks) (simp_all add: published_append published_batch_events del: upt.simps)

lemma batches_acc_Issues: "batches_acc cur (map Issue xs @ es) = batches_acc (cur @ xs) es"
  by (induction xs arbitrary: cur) simp_all

lemma batches_acc_batch_events:
  "batches_acc [] (batch_events k @ es) = [5 * k..<min (5 * k + 5) 144] # batches_acc [] es"
  by (simp add: batch_events_def batches_acc_Issues del: upt.simps)

lemma batches_trace:
  "batches (concat (map batch_events ks)) = map (\<lambda>k. [5 * k..<min (5 * k + 5) 144]) ks"
  unfolding batches_def
  by (induction ks) (simp_all add: batches_acc_batch_events del: upt.simps)

lemma concat_full_batches: "concat (map (\<lambda>k. [5 * k..<5 * k + 5]) [0..<n]) = [0..<5 * n]"
proof (induction n)
  case 0
  then show ?case by simp
next
  case (Suc n)
  have "[0..<5 * n + 5] = [0..<5 * n] @ [5 * n..<5 * n + 5]"
    by (rule upt_add_eq_append) simp
  moreover have "concat (map (\<lambda>k. [5 * k..<5 * k + 5]) [0..<Suc n]) =
      concat (map (\<lambda>k. [5 * k..<5 * k + 5]) [0..<n]) @ [5 * n..<5 * n + 5]"
    by simp
  ultimately show ?case using Suc by (simp add: add.commute)
qed

lemma upt_29: "[0..<29] = [0..<28] @ [28]"
proof -
  have "[0..<Suc 28] = [0..<28] @ [28]" by (rule upt_Suc_append) simp
  then show ?thesis by simp
qed

lemma batch_sizes:
  "map (\<lambda>k. [5 * k..<min (5 * k + 5) 144]) [0..<29] =
   map (\<lambda>k. [5 * k..<5 * k + 5]) [0..<28] @ [[140..<144]]"
proof -
  have "map (\<lambda>k. [5 * k..<min (5 * k + 5) 144]) [0..<28] = map (\<lambda>k. [5 * k..<5 * k + 5]) [0..<28]"
    by (rule map_cong) (auto simp: min_def)
  moreover have "[5 * 28..<min (5 * 28 + 5) 144] = [140..<144::nat]"
    by (simp del: upt.simps)
  ultimately show ?thesis
    unfolding upt_29 map_append by (simp del: upt.simps)
qed

lemma log_final: "log (loadAllImages net initial_loader) = concat (map batch_events [0..<29])"
  by (simp only: loadAllImages_eq loader.simps)

lemma images_final: "images (loadAllImages net initial_loader) = map Some [0..<144]"
  by (simp only: loadAllImages_eq loader.simps)

lemma heap_final:
  "i < 144 \<Longrightarrow> heap (loadAllImages net initial_loader) i = element_after net i"
  by (simp only: loadAllImages_eq loader.simps) simp

lemma published_final:
  "published (log (loadAllImages net initial_loader)) =
     map (\<lambda>k. map Some [0..<min (5 * k + 5) 144]) [0..<29]"
  by (simp only: log_final published_trace)

lemma published_nth:
  "k < 29 \<Longrightarrow> published (log (loadAllImages net initial_loader)) ! k =
     map Some [0..<min (5 * k + 5) 144]"
  by (simp add: published_final del: upt.simps)

lemma array_get_dense:
  "array_get (map Some [0..<n]) (int i) = (if i < n then Some i else None)"
  by (simp add: array_get_def del: upt.simps)

text \<open>
  Claim C3. Whatever the network does, the loader's log is the events of batch 0, then of
  batch 1, and so on up to batch 28: there are exactly 29 batches, the first 28 of five
  indices and the last of four (140 to 143), the indices are requested in increasing
  order, each batch's barrier stands between its requests and the next batch's, and the
  29 snapshots are published in batch order, the one of batch \<open>k\<close> holding the indices
  below \<open>min (5 * k + 5) 144\<close>.
\<close>

theorem loader_batches:
  "log (loadAllImages net initial_loader) = concat (map batch_events [0..<29]) \<and>
   batches (log (loadAllImages net initial_loader)) =
     map (\<lambda>k. [5 * k..<5 * k + 5]) [0..<28] @ [[140..<144]] \<and>
   length (batches (log (loadAllImages net initial_loader))) = 29 \<and>
   map length (batches (log (loadAllImages net initial_loader))) = replicate 28 5 @ [4] \<and>
   concat (batches (log (loadAllImages net initial_loader))) = [0..<144] \<and>
   published (log (loadAllImages net initial_loader)) =
     map (\<lambda>k. map Some [0..<min (5 * k + 5) 144]) [0..<29]"
proof -
  let ?L = "log (loadAllImages net initial_loader)"
  have b: "batches ?L = map (\<lambda>k. [5 * k..<5 * k + 5]) [0..<28] @ [[140..<144]]"
    by (simp only: log_final batches_trace batch_sizes)
  have l: "length (batches ?L) = 29"
    unfolding b by simp
  have "map length (map (\<lambda>k. [5 * k..<5 * k + 5]) [0..<28]) = replicate 28 5"
    by (simp add: map_replicate_const o_def del: upt.simps)
  then have m: "map length (batches ?L) = replicate 28 5 @ [4]"
    unfolding b by (simp del: upt.simps replicate.simps)
  have "[0..<140 + 4] = [0..<140] @ [140..<140 + 4]"
    by (rule upt_add_eq_append) simp
  then have "[0..<144] = [0..<5 * 28] @ [140..<144]"
    by (simp del: upt.simps)
  then have c: "concat (batches ?L) = [0..<144]"
    unfolding b by (simp add: concat_full_batches del: upt.simps)
  from log_final b l m c published_final show ?thesis by blast
qed

lemma array_get_array_set_other:
  "j \<noteq> int i \<Longrightarrow> array_get (array_set xs i v) j = array_get xs j"
  by (auto simp: array_get_def array_set_def nth_append nth_list_update)

lemma array_get_array_set_same: "array_get (array_set xs i v) (int i) = Some v"
  by (auto simp: array_get_def array_set_def nth_append)

lemma settle_keeps_arrays:
  "loadedImages (settle net r s) = loadedImages s \<and> images (settle net r s) = images s"
  by (simp add: settle_def split: option.splits)

lemma issue_fills_slot:
  "array_get (loadedImages (fst (issue i (s, ps)))) (int i) = Some (allocated s) \<and>
   images (fst (issue i (s, ps))) = images s"
  by (simp add: issue_def Let_def array_get_array_set_same)

lemma issue_keeps_others:
  "j \<noteq> int i \<Longrightarrow> array_get (loadedImages (fst (issue i (s, ps)))) j = array_get (loadedImages s) j"
  by (simp add: issue_def Let_def array_get_array_set_other)

text \<open>
  Claim C7. The published snapshots only grow: there are 29 of them, and every index
  that holds an element in one snapshot holds the same element (the same reference) in
  the next one. The loader writes the set by filling slots in place: issuing the load of
  index \<open>i\<close> puts a new element in slot \<open>i\<close> and leaves every other slot as it reads, a
  settling promise and \<open>setImages\<close> leave \<open>loadedImages\<close> as it is, and only \<open>setImages\<close>
  changes the published \<open>images\<close>. \<open>render\<close> and \<open>canvas_effect\<close> take the snapshot as
  a value and return a canvas or a page.
\<close>

theorem published_snapshots_grow:
  "length (published (log (loadAllImages net initial_loader))) = 29 \<and>
   (Suc k < length (published (log (loadAllImages net initial_loader))) \<and>
    array_get (published (log (loadAllImages net initial_loader)) ! k) (int i) = Some img \<longrightarrow>
    array_get (published (log (loadAllImages net initial_loader)) ! Suc k) (int i) = Some img) \<and>
   array_get (loadedImages (fst (issue i (s, ps)))) (int i) = Some (allocated s) \<and>
   (j \<noteq> int i \<longrightarrow>
    array_get (loadedImages (fst (issue i (s, ps)))) j = array_get (loadedImages s) j) \<and>
   images (fst (issue i (s, ps))) = images s \<and>
   loadedImages (settle net r s) = loadedImages s \<and>
   images (settle net r s) = images s \<and>
   loadedImages (setImages snapshot s) = loadedImages s"
proof -
  let ?P = "published (log (loadAllImages net initial_loader))"
  have len: "length ?P = 29" by (simp add: published_final)
  have "array_get (?P ! Suc k) (int i) = Some img"
    if k: "Suc k < length ?P" and g: "array_get (?P ! k) (int i) = Some img"
  proof -
    have k29: "k < 29" "Suc k < 29" using k len by simp_all
    from g have "i < min (5 * k + 5) 144 \<and> img = i"
      by (simp add: published_nth [OF k29(1)] array_get_dense split: if_splits)
    then show ?thesis
      by (simp add: published_nth [OF k29(2)] array_get_dense)
  qed
  moreover have "loadedImages (setImages snapshot s) = loadedImages s"
    by (simp add: setImages_def)
  ultimately show ?thesis
    using len issue_fills_slot [of i s ps] issue_keeps_others [of j i s ps]
      settle_keeps_arrays [of net r s]
    by blast
qed

theorem published_snapshots_grow_witness:
  "Suc 0 < length (published (log (loadAllImages net37 initial_loader))) \<and>
   array_get (published (log (loadAllImages net37 initial_loader)) ! 0) (int 3) = Some 3 \<and>
   array_get (published (log (loadAllImages net37 initial_loader)) ! Suc 0) (int 3) = Some 3 \<and>
   (4::int) \<noteq> int 3 \<and>
   array_get (loadedImages (fst (issue 3 (initial_loader, [])))) 4 =
     array_get (loadedImages initial_loader) 4"
proof -
  have a: "Suc 0 < length (published (log (loadAllImages net37 initial_loader)))"
    by (simp add: published_final)
  have b: "array_get (published (log (loadAllImages net37 initial_loader)) ! 0) (int 3) = Some 3"
    by (simp add: published_nth array_get_def del: upt.simps)
  have c: "(4::int) \<noteq> int 3" by simp
  from a b c published_snapshots_grow [where net = net37 and k = 0 and i = 3 and img = 3 and j = 4
      and s = initial_loader and ps = "[]"]
  show ?thesis by blast
qed

section \<open>The renderer and the effect\<close>

lemma Math_round_of_nat: "Math_round (real i) = int i"
  by (simp add: Math_round_def)

lemma render_at:
  assumes "array_get imgs (Math_round index) = Some img"
  shows "render imgs store index c =
     c\<lparr>imageSmoothingEnabled := True,
       imageSmoothingQuality := ''high'',
       calls := calls c @
         [ClearRect (Fin 0) (Fin 0) (num (cwidth c)) (num (cheight c)),
          DrawImage img (Fin 0) (Fin 0)
            (num (width (store img))) (num (height (store img)))
            (js_div (js_sub (num (cwidth c))
               (js_mul (num (width (store img)))
                  (Math_max (js_div (num (cwidth c)) (num (width (store img))))
                     (js_div (num (cheight c)) (num (height (store img))))))) (Fin 2))
            (js_div (js_sub (num (cheight c))
               (js_mul (num (height (store img)))
                  (Math_max (js_div (num (cwidth c)) (num (width (store img))))
                     (js_div (num (cheight c)) (num (height (store img))))))) (Fin 2))
            (js_mul (num (width (store img)))
               (Math_max (js_div (num (cwidth c)) (num (width (store img))))
                  (js_div (num (cheight c)) (num (height (store img))))))
            (js_mul (num (height (store img)))
               (Math_max (js_div (num (cwidth c)) (num (width (store img))))
                  (js_div (num (cheight c)) (num (height (store img))))))]\<rparr>"
  by (simp add: render_def assms Let_def)

subsection \<open>Rounding to a double\<close>

lemma rne_error: "\<bar>of_int (rne x) - x\<bar> \<le> 1 / 2"
  unfolding rne_def Let_def by (auto simp: abs_if) linarith+

lemma powr_powi: "(2::real) powr (of_int e) = 2 powi e"
  by (rule powr_real_of_int') simp_all

lemma binade_iff:
  "0 < a \<Longrightarrow> binade a = e \<longleftrightarrow> 2 powi e \<le> a \<and> a < 2 powi (e + 1)"
  using floor_log_eq_powr_iff [of a 2 e] powr_powi [of e] powr_powi [of "e + 1"]
  by (simp add: binade_def)

lemma binade_bounds:
  assumes "0 < (a::real)"
  shows "2 powi (binade a) \<le> a" "a < 2 powi (binade a + 1)"
  using binade_iff [OF assms, of "binade a"] by simp_all

lemma binade_eq:
  assumes "0 < (a::real)" "2 powi e \<le> a" "a < 2 powi (e + 1)"
  shows "binade a = e"
  using binade_iff [OF assms(1), of e] assms(2,3) by simp

lemma round_double_eval:
  assumes "x \<noteq> 0" "\<bar>x\<bar> < 2 ^ 1024 - 2 ^ 970" "- 1022 \<le> e"
    and "2 powi e \<le> \<bar>x\<bar>" "\<bar>x\<bar> < 2 powi (e + 1)"
  shows "round_double x = Fin (of_int (rne (x / 2 powi (e - 52))) * 2 powi (e - 52))"
proof -
  have "binade \<bar>x\<bar> = e"
    using assms by (intro binade_eq) simp_all
  then show ?thesis
    using assms(1-3) by (simp add: round_double_def Let_def max_def)
qed

lemma binade_ge:
  assumes "0 < (a::real)" "2 powi k \<le> a"
  shows "k \<le> binade a"
proof (rule ccontr)
  assume "\<not> k \<le> binade a"
  then have "binade a + 1 \<le> k" by simp
  then have "(2::real) powi (binade a + 1) \<le> 2 powi k"
    by (intro power_int_increasing) simp_all
  with binade_bounds(2) [OF assms(1)] assms(2) show False by linarith
qed

lemma round_double_grid:
  assumes "2 powi (- 1022) \<le> \<bar>x\<bar>" "\<bar>x\<bar> < 2 ^ 1023"
  shows "\<exists>m. round_double x = Fin (of_int m * 2 powi (binade \<bar>x\<bar> - 52)) \<and>
     \<bar>of_int m * 2 powi (binade \<bar>x\<bar> - 52) - x\<bar> \<le> \<bar>x\<bar> / 2 ^ 53"
proof -
  define e where "e = binade \<bar>x\<bar>"
  define q :: real where "q = 2 powi (e - 52)"
  have pos: "0 < \<bar>x\<bar>"
    using assms(1) zero_less_power_int [of "2::real" "- 1022"] by linarith
  then have x0: "x \<noteq> 0" by simp
  have lo: "2 powi e \<le> \<bar>x\<bar>" and hi: "\<bar>x\<bar> < 2 powi (e + 1)"
    unfolding e_def using binade_bounds [OF pos] by simp_all
  have e_lo: "- 1022 \<le> e"
    unfolding e_def using pos assms(1) by (rule binade_ge)
  have "(2::real) ^ 1023 < 2 ^ 1024 - 2 ^ 970" by simp
  with assms(2) have th: "\<bar>x\<bar> < 2 ^ 1024 - 2 ^ 970" by linarith
  have q_pos: "0 < q" by (simp add: q_def)
  have r: "round_double x = Fin (of_int (rne (x / q)) * q)"
    unfolding q_def by (rule round_double_eval [OF x0 th e_lo lo hi])
  have "of_int (rne (x / q)) * q - x = (of_int (rne (x / q)) - x / q) * q"
    using q_pos by (simp add: field_simps)
  then have "\<bar>of_int (rne (x / q)) * q - x\<bar> = \<bar>of_int (rne (x / q)) - x / q\<bar> * q"
    using q_pos by (simp add: abs_mult)
  also have "\<dots> \<le> 1 / 2 * q"
    using rne_error [of "x / q"] q_pos by (intro mult_right_mono) simp_all
  also have "1 / 2 * q = 2 powi e / 2 ^ 53"
    by (simp add: q_def power_int_diff)
  also have "\<dots> \<le> \<bar>x\<bar> / 2 ^ 53"
    using lo by (simp add: divide_right_mono)
  finally have "\<bar>of_int (rne (x / q)) * q - x\<bar> \<le> \<bar>x\<bar> / 2 ^ 53" .
  with r show ?thesis unfolding q_def e_def by blast
qed

lemma round_double_near:
  assumes "x = 0 \<or> 2 powi (- 1022) \<le> \<bar>x\<bar>" "\<bar>x\<bar> < 2 ^ 1023"
  shows "\<exists>y. round_double x = Fin y \<and> \<bar>y - x\<bar> \<le> \<bar>x\<bar> / 2 ^ 53"
proof (cases "x = 0")
  case True
  then show ?thesis by (simp add: round_double_def)
next
  case False
  with assms(1) have "2 powi (- 1022) \<le> \<bar>x\<bar>" by simp
  from round_double_grid [OF this assms(2)] show ?thesis by blast
qed

text \<open>The quotient of two sizes.\<close>

lemma quotient_rounds:
  fixes a b :: real
  assumes "1 \<le> a" "a < 2 ^ 32" "1 \<le> b" "b < 2 ^ 32"
  shows "\<exists>s. round_double (a / b) = Fin s \<and> \<bar>s - a / b\<bar> \<le> a / b / 2 ^ 53"
proof -
  have "1 / 2 ^ 32 \<le> a / b"
    using assms by (intro frac_le) simp_all
  moreover have "(2::real) powi (- 1022) \<le> 1 / 2 ^ 32"
    by (simp add: power_int_minus field_simps)
  ultimately have lo: "2 powi (- 1022) \<le> \<bar>a / b\<bar>" by linarith
  have "a / b \<le> a / 1"
    using assms by (intro frac_le) simp_all
  then have hi: "\<bar>a / b\<bar> < 2 ^ 1023" using assms by simp
  have eq: "\<bar>a / b\<bar> = a / b" using assms by simp
  from round_double_near [OF disjI2 [OF lo] hi] show ?thesis unfolding eq .
qed

text \<open>A product of at least one half: its double is a multiple of \<open>2 ^ -53\<close>.\<close>

lemma product_rounds:
  fixes p :: real
  assumes "1 / 2 \<le> p" "p < 2 ^ 66"
  shows "\<exists>m k. round_double p = Fin (of_int m * 2 powi k) \<and> - 53 \<le> k \<and>
     \<bar>of_int m * 2 powi k - p\<bar> \<le> p / 2 ^ 53"
proof -
  have pos: "0 < p" using assms(1) by simp
  have eq: "\<bar>p\<bar> = p" using pos by simp
  have "(2::real) powi (- 1022) \<le> 1 / 2"
    by (simp add: power_int_minus field_simps)
  with assms(1) have lo: "2 powi (- 1022) \<le> \<bar>p\<bar>" unfolding eq by linarith
  have "(2::real) ^ 66 < 2 ^ 1023" by simp
  with assms(2) have hi: "\<bar>p\<bar> < 2 ^ 1023" unfolding eq by linarith
  have "(2::real) powi (- 1) \<le> p"
    using assms(1) by (simp add: power_int_minus)
  then have "- 1 \<le> binade p" by (rule binade_ge [OF pos])
  then have "- 53 \<le> binade p - 52" by simp
  with round_double_grid [OF lo hi] show ?thesis unfolding eq by blast
qed

text \<open>Half the difference of a size and such a double.\<close>

lemma offset_rounds:
  fixes n :: nat and m k :: int
  assumes "n < 2 ^ 32" "- 53 \<le> k" "\<bar>of_int m * 2 powi k :: real\<bar> < 2 ^ 67"
  shows "\<exists>cx. js_div (js_sub (Fin (real n)) (Fin (of_int m * 2 powi k))) (Fin 2) = Fin cx \<and>
     \<bar>cx - (real n - of_int m * 2 powi k) / 2\<bar> \<le> \<bar>real n - of_int m * 2 powi k\<bar> / 2 ^ 52"
proof -
  define sv :: real where "sv = of_int m * 2 powi k"
  define d :: real where "d = real n - sv"
  have "(2::real) powi (k + 53) = 2 powi k * 2 powi 53"
    by (rule power_int_add) simp
  moreover have "(2::real) powi (k + 53) = 2 ^ nat (k + 53)"
    using assms(2) by (simp add: power_int_def)
  ultimately have pk: "(2::real) powi k = 2 ^ nat (k + 53) / 2 ^ 53"
    by simp
  have "d = of_int (int n * 2 ^ 53 - m * 2 ^ nat (k + 53)) / 2 ^ 53"
    unfolding d_def sv_def pk by (simp add: field_simps)
  then obtain N :: int where N: "d = of_int N / 2 ^ 53" by blast
  have small: "(2::real) powi (- 1022) \<le> 1 / 2 ^ 55"
    by (simp add: power_int_minus field_simps)
  have dz: "d = 0 \<or> 1 / 2 ^ 53 \<le> \<bar>d\<bar>"
  proof (cases "N = 0")
    case True
    then show ?thesis using N by simp
  next
    case False
    then have "1 \<le> \<bar>N\<bar>" by simp
    then have "(1::real) \<le> \<bar>of_int N\<bar>" by linarith
    then have "1 / 2 ^ 53 \<le> \<bar>of_int N :: real\<bar> / 2 ^ 53"
      by (intro divide_right_mono) simp_all
    then show ?thesis unfolding N by simp
  qed
  then have dlo: "d = 0 \<or> 2 powi (- 1022) \<le> \<bar>d\<bar>"
    using small by force
  have "\<bar>d\<bar> \<le> real n + \<bar>sv\<bar>" unfolding d_def by simp
  moreover have "real n < 2 ^ 32" using assms(1) by (simp add: of_nat_less_iff [of n "2 ^ 32", where 'a = real, simplified])
  ultimately have dhi67: "\<bar>d\<bar> < 2 ^ 68" using assms(3) unfolding sv_def by simp
  then have dhi: "\<bar>d\<bar> < 2 ^ 1023" by simp
  from round_double_near [OF dlo dhi] obtain d' where
    d': "round_double d = Fin d'" "\<bar>d' - d\<bar> \<le> \<bar>d\<bar> / 2 ^ 53" by blast
  have sub: "js_sub (Fin (real n)) (Fin sv) = Fin d'"
    using d'(1) by (simp add: js_sub_def d_def)
  have "\<bar>d\<bar> / 2 ^ 53 \<le> \<bar>d\<bar> / 2"
    by (intro divide_left_mono) simp_all
  with d'(2) have near: "\<bar>d' - d\<bar> \<le> \<bar>d\<bar> / 2" by linarith
  have d'_up: "\<bar>d'\<bar> \<le> 2 * \<bar>d\<bar>"
    using near by linarith
  have hlo: "d' / 2 = 0 \<or> 2 powi (- 1022) \<le> \<bar>d' / 2\<bar>"
  proof (cases "d = 0")
    case True
    with d'(2) show ?thesis by simp
  next
    case False
    with dz have "1 / 2 ^ 53 \<le> \<bar>d\<bar>" by simp
    moreover have "\<bar>d\<bar> / 2 \<le> \<bar>d'\<bar>"
      using near by linarith
    ultimately have "1 / 2 ^ 55 \<le> \<bar>d' / 2\<bar>" by simp
    with small show ?thesis by linarith
  qed
  have hhi: "\<bar>d' / 2\<bar> < 2 ^ 1023"
    using d'_up dhi67 by simp
  from round_double_near [OF hlo hhi] obtain cx where
    cx: "round_double (d' / 2) = Fin cx" "\<bar>cx - d' / 2\<bar> \<le> \<bar>d' / 2\<bar> / 2 ^ 53" by blast
  have dv: "js_div (Fin d') (Fin 2) = Fin cx"
    using cx(1) by simp
  have "cx - d / 2 = (cx - d' / 2) + (d' - d) / 2" by (simp add: field_simps)
  then have "\<bar>cx - d / 2\<bar> \<le> \<bar>cx - d' / 2\<bar> + \<bar>(d' - d) / 2\<bar>"
    by (simp only: abs_triangle_ineq)
  then have "\<bar>cx - d / 2\<bar> \<le> \<bar>cx - d' / 2\<bar> + \<bar>d' - d\<bar> / 2" by simp
  also have "\<dots> \<le> \<bar>d' / 2\<bar> / 2 ^ 53 + \<bar>d\<bar> / 2 ^ 53 / 2"
    using cx(2) d'(2) by simp
  also have "\<dots> \<le> \<bar>d\<bar> / 2 ^ 53 + \<bar>d\<bar> / 2 ^ 53 / 2"
    using d'_up by simp
  also have "\<dots> \<le> \<bar>d\<bar> / 2 ^ 52"
    by simp
  finally have "\<bar>cx - d / 2\<bar> \<le> \<bar>d\<bar> / 2 ^ 52" .
  with sub dv show ?thesis unfolding d_def sv_def by auto
qed

lemma rel_bounds:
  fixes x y :: real
  assumes "\<bar>y - x\<bar> \<le> x / 2 ^ 53"
  shows "x * (1 - 1 / 2 ^ 53) \<le> y" "y \<le> x * (1 + 1 / 2 ^ 53)"
proof -
  define t where "t = x / 2 ^ 53"
  have e: "x * (1 - 1 / 2 ^ 53) = x - t" "x * (1 + 1 / 2 ^ 53) = x + t"
    by (simp_all add: t_def algebra_simps)
  from assms have "\<bar>y - x\<bar> \<le> t" by (simp add: t_def)
  then have "x - t \<le> y" "y \<le> x + t" by linarith+
  then show "x * (1 - 1 / 2 ^ 53) \<le> y" "y \<le> x * (1 + 1 / 2 ^ 53)"
    unfolding e .
qed

lemma axis_cover:
  fixes w iw s scale sv :: real
  assumes "0 < iw" "0 \<le> w"
    and s: "\<bar>s - w / iw\<bar> \<le> w / iw / 2 ^ 53"
    and sc: "s \<le> scale"
    and sv: "\<bar>sv - iw * scale\<bar> \<le> iw * scale / 2 ^ 53"
  shows "w * (1 - 1 / 2 ^ 53) \<le> iw * scale"
    and "w * (1 - 1 / 2 ^ 53)\<^sup>2 \<le> sv"
    and "scale = s \<Longrightarrow> sv \<le> w * (1 + 1 / 2 ^ 53)\<^sup>2"
    and "scale = s \<Longrightarrow> iw * scale \<le> w * (1 + 1 / 2 ^ 53)"
proof -
  define u :: real where "u = 1 / 2 ^ 53"
  have u: "0 \<le> u" "u \<le> 1" by (simp_all add: u_def)
  have wq: "iw * (w / iw) = w" using assms(1) by simp
  have "w / iw * (1 - u) \<le> s" and s_up: "s \<le> w / iw * (1 + u)"
    using rel_bounds [OF s] by (simp_all add: u_def)
  then have "iw * (w / iw * (1 - u)) \<le> iw * s"
    using assms(1) by (intro mult_left_mono) simp_all
  moreover have "iw * (w / iw * (1 - u)) = w * (1 - u)"
    using assms(1) by simp
  ultimately have a: "w * (1 - u) \<le> iw * s" by simp
  have "iw * s \<le> iw * scale"
    using sc assms(1) by (intro mult_left_mono) simp_all
  with a have b: "w * (1 - u) \<le> iw * scale" by linarith
  then show "w * (1 - 1 / 2 ^ 53) \<le> iw * scale" by (simp add: u_def)
  have nn: "0 \<le> w * (1 - u)" using assms(2) u by simp
  have c: "iw * scale * (1 - u) \<le> sv" and c_up: "sv \<le> iw * scale * (1 + u)"
    using rel_bounds [OF sv] by (simp_all add: u_def)
  have "w * (1 - u) * (1 - u) \<le> iw * scale * (1 - u)"
    using b u by (intro mult_right_mono) simp_all
  with c have "w * (1 - u) * (1 - u) \<le> sv" by linarith
  then show "w * (1 - 1 / 2 ^ 53)\<^sup>2 \<le> sv"
    by (simp add: u_def power2_eq_square mult.assoc)
  {
    assume eq: "scale = s"
    have "iw * s \<le> iw * (w / iw * (1 + u))"
      using s_up assms(1) by (intro mult_left_mono) simp_all
    moreover have "iw * (w / iw * (1 + u)) = w * (1 + u)"
      using assms(1) by simp
    ultimately have d: "iw * scale \<le> w * (1 + u)" using eq by simp
    then show "iw * scale \<le> w * (1 + 1 / 2 ^ 53)" by (simp add: u_def)
    have "iw * scale * (1 + u) \<le> w * (1 + u) * (1 + u)"
      using d u by (intro mult_right_mono) simp_all
    with c_up have "sv \<le> w * (1 + u) * (1 + u)" by linarith
    then show "sv \<le> w * (1 + 1 / 2 ^ 53)\<^sup>2"
      by (simp add: u_def power2_eq_square mult.assoc)
  }
qed

lemma scale_range:
  fixes w iw s :: real
  assumes "1 \<le> w" "w < 2 ^ 32" "1 \<le> iw" "iw < 2 ^ 32"
    and s: "\<bar>s - w / iw\<bar> \<le> w / iw / 2 ^ 53"
  shows "0 < s" "s < 2 ^ 33" "1 / 2 \<le> iw * s"
proof -
  have q: "0 < w / iw" "w / iw \<le> w" using assms(1,3) by (simp_all add: field_simps)
  have "(1::real) / 2 \<le> 1 - 1 / 2 ^ 53" by simp
  then have "w / iw * (1 / 2) \<le> w / iw * (1 - 1 / 2 ^ 53)"
    using q(1) by (intro mult_left_mono) simp_all
  with rel_bounds(1) [OF s] have lo: "w / iw / 2 \<le> s" by simp
  from q(1) have "0 < w / iw / 2" by simp
  with lo show "0 < s" by linarith
  have "(1::real) + 1 / 2 ^ 53 \<le> 2" by simp
  then have "w / iw * (1 + 1 / 2 ^ 53) \<le> w / iw * 2"
    using q(1) by (intro mult_left_mono) simp_all
  with rel_bounds(2) [OF s] q(2) assms(2) show "s < 2 ^ 33" by simp
  have "iw * (w / iw / 2) \<le> iw * s"
    using lo assms(3) by (intro mult_left_mono) simp_all
  moreover have "iw * (w / iw / 2) = w / 2" using assms(3) by simp
  ultimately show "1 / 2 \<le> iw * s" using assms(1) by simp
qed

subsection \<open>Cover fit\<close>

text \<open>
  Claim C4, amended. For a canvas and a loaded image whose sizes are positive (and below
  \<open>2 ^ 32\<close>, as every unsigned DOM size is), \<open>render\<close> adds exactly two calls: first
  \<open>clearRect\<close> over the whole canvas, then \<open>drawImage\<close>. The scale is the larger of the two
  quotients \<open>w / iw\<close> and \<open>h / ih\<close>, each rounded to a double, so each within a relative
  \<open>2 ^ -53\<close> of the exact quotient. The scaled width and height are \<open>iw * scale\<close> and
  \<open>ih * scale\<close>, each rounded to a double; they cover the canvas up to rounding, being at
  least \<open>w * (1 - 2 ^ -53)\<^sup>2\<close> and \<open>h * (1 - 2 ^ -53)\<^sup>2\<close>, and one of them is also at most
  its canvas size times \<open>(1 + 2 ^ -53)\<^sup>2\<close>. The offsets are the doubles computed for
  \<open>(w - scaled width) / 2\<close> and \<open>(h - scaled height) / 2\<close>, each within \<open>2 ^ -52\<close> times
  the difference of the exact half.
\<close>

theorem render_cover_fit:
  assumes get: "array_get imgs (Math_round index) = Some img"
    and pos: "0 < cwidth c" "0 < cheight c" "0 < width (store img)" "0 < height (store img)"
    and ulong: "cwidth c < 2 ^ 32" "cheight c < 2 ^ 32"
      "width (store img) < 2 ^ 32" "height (store img) < 2 ^ 32"
  shows "let w = real (cwidth c); h = real (cheight c);
             iw = real (width (store img)); ih = real (height (store img))
         in \<exists>s1 s2 sw sh cx cy.
              calls (render imgs store index c) = calls c @
                [ClearRect (Fin 0) (Fin 0) (Fin w) (Fin h),
                 DrawImage img (Fin 0) (Fin 0) (Fin iw) (Fin ih)
                   (Fin cx) (Fin cy) (Fin sw) (Fin sh)] \<and>
              round_double (w / iw) = Fin s1 \<and> round_double (h / ih) = Fin s2 \<and>
              round_double (iw * max s1 s2) = Fin sw \<and>
              round_double (ih * max s1 s2) = Fin sh \<and>
              \<bar>s1 - w / iw\<bar> \<le> w / iw / 2 ^ 53 \<and> \<bar>s2 - h / ih\<bar> \<le> h / ih / 2 ^ 53 \<and>
              w * (1 - 1 / 2 ^ 53)\<^sup>2 \<le> sw \<and> h * (1 - 1 / 2 ^ 53)\<^sup>2 \<le> sh \<and>
              (sw \<le> w * (1 + 1 / 2 ^ 53)\<^sup>2 \<or> sh \<le> h * (1 + 1 / 2 ^ 53)\<^sup>2) \<and>
              \<bar>cx - (w - sw) / 2\<bar> \<le> \<bar>w - sw\<bar> / 2 ^ 52 \<and>
              \<bar>cy - (h - sh) / 2\<bar> \<le> \<bar>h - sh\<bar> / 2 ^ 52"
proof -
  define w where "w = real (cwidth c)"
  define h where "h = real (cheight c)"
  define iw where "iw = real (width (store img))"
  define ih where "ih = real (height (store img))"
  have rw: "1 \<le> w" "w < 2 ^ 32"
    unfolding w_def using pos(1) ulong(1) of_nat_less_iff [of "cwidth c" "2 ^ 32", where 'a = real]
    by simp_all
  have rh: "1 \<le> h" "h < 2 ^ 32"
    unfolding h_def using pos(2) ulong(2) of_nat_less_iff [of "cheight c" "2 ^ 32", where 'a = real]
    by simp_all
  have riw: "1 \<le> iw" "iw < 2 ^ 32"
    unfolding iw_def using pos(3) ulong(3)
      of_nat_less_iff [of "width (store img)" "2 ^ 32", where 'a = real]
    by simp_all
  have rih: "1 \<le> ih" "ih < 2 ^ 32"
    unfolding ih_def using pos(4) ulong(4)
      of_nat_less_iff [of "height (store img)" "2 ^ 32", where 'a = real]
    by simp_all
  from quotient_rounds [OF rw riw] obtain s1 where
    s1: "round_double (w / iw) = Fin s1" "\<bar>s1 - w / iw\<bar> \<le> w / iw / 2 ^ 53" by blast
  from quotient_rounds [OF rh rih] obtain s2 where
    s2: "round_double (h / ih) = Fin s2" "\<bar>s2 - h / ih\<bar> \<le> h / ih / 2 ^ 53" by blast
  define scale where "scale = max s1 s2"
  note r1 = scale_range [OF rw riw s1(2)]
  note r2 = scale_range [OF rh rih s2(2)]
  have le: "s1 \<le> scale" "s2 \<le> scale" by (simp_all add: scale_def)
  have sc: "0 < scale" "scale < 2 ^ 33"
    using r1(1,2) r2(2) by (simp_all add: scale_def)
  have "iw * s1 \<le> iw * scale"
    using le(1) riw(1) by (intro mult_left_mono) simp_all
  with r1(3) have p1lo: "1 / 2 \<le> iw * scale" by linarith
  have "ih * s2 \<le> ih * scale"
    using le(2) rih(1) by (intro mult_left_mono) simp_all
  with r2(3) have p2lo: "1 / 2 \<le> ih * scale" by linarith
  have "iw * scale \<le> 2 ^ 32 * 2 ^ 33"
    using riw sc by (intro mult_mono) simp_all
  then have p1hi: "iw * scale < 2 ^ 66" by simp
  have "ih * scale \<le> 2 ^ 32 * 2 ^ 33"
    using rih sc by (intro mult_mono) simp_all
  then have p2hi: "ih * scale < 2 ^ 66" by simp
  from product_rounds [OF p1lo p1hi] obtain m1 k1 where
    sw: "round_double (iw * scale) = Fin (of_int m1 * 2 powi k1)" "- 53 \<le> k1"
      "\<bar>of_int m1 * 2 powi k1 - iw * scale\<bar> \<le> iw * scale / 2 ^ 53" by blast
  from product_rounds [OF p2lo p2hi] obtain m2 k2 where
    sh: "round_double (ih * scale) = Fin (of_int m2 * 2 powi k2)" "- 53 \<le> k2"
      "\<bar>of_int m2 * 2 powi k2 - ih * scale\<bar> \<le> ih * scale / 2 ^ 53" by blast
  define sw :: real where "sw = of_int m1 * 2 powi k1"
  define sh :: real where "sh = of_int m2 * 2 powi k2"
  have bw: "\<bar>sw\<bar> < 2 ^ 67"
    using sw(3) p1lo p1hi unfolding sw_def [symmetric] by (simp add: abs_if split: if_splits)
  have bh: "\<bar>sh\<bar> < 2 ^ 67"
    using sh(3) p2lo p2hi unfolding sh_def [symmetric] by (simp add: abs_if split: if_splits)
  from offset_rounds [OF ulong(1) sw(2), of m1] bw obtain cx where
    cx: "js_div (js_sub (Fin w) (Fin sw)) (Fin 2) = Fin cx"
      "\<bar>cx - (w - sw) / 2\<bar> \<le> \<bar>w - sw\<bar> / 2 ^ 52"
    unfolding sw_def w_def by blast
  from offset_rounds [OF ulong(2) sh(2), of m2] bh obtain cy where
    cy: "js_div (js_sub (Fin h) (Fin sh)) (Fin 2) = Fin cy"
      "\<bar>cy - (h - sh) / 2\<bar> \<le> \<bar>h - sh\<bar> / 2 ^ 52"
    unfolding sh_def h_def by blast
  have w0: "0 \<le> w" "0 < iw" "0 \<le> h" "0 < ih" using rw rh riw rih by simp_all
  note cw = axis_cover [OF w0(2,1) s1(2) le(1) sw(3) [folded sw_def]]
  note ch = axis_cover [OF w0(4,3) s2(2) le(2) sh(3) [folded sh_def]]
  have one: "sw \<le> w * (1 + 1 / 2 ^ 53)\<^sup>2 \<or> sh \<le> h * (1 + 1 / 2 ^ 53)\<^sup>2"
  proof (cases "s2 \<le> s1")
    case True
    then have "scale = s1" by (simp add: scale_def)
    then show ?thesis using cw(3) by simp
  next
    case False
    then have "scale = s2" by (simp add: scale_def)
    then show ?thesis using ch(3) by simp
  qed
  have d1: "js_div (num (cwidth c)) (num (width (store img))) = Fin s1"
    using s1(1) riw(1) by (simp add: num_def w_def iw_def)
  have d2: "js_div (num (cheight c)) (num (height (store img))) = Fin s2"
    using s2(1) rih(1) by (simp add: num_def h_def ih_def)
  have mx: "Math_max (Fin s1) (Fin s2) = Fin scale" by (simp add: scale_def)
  have m1: "js_mul (num (width (store img))) (Fin scale) = Fin sw"
    using sw(1) by (simp add: num_def iw_def sw_def)
  have m2: "js_mul (num (height (store img))) (Fin scale) = Fin sh"
    using sh(1) by (simp add: num_def ih_def sh_def)
  have nw: "num (cwidth c) = Fin w" "num (cheight c) = Fin h"
    "num (width (store img)) = Fin iw" "num (height (store img)) = Fin ih"
    by (simp_all add: num_def w_def h_def iw_def ih_def)
  have sw1: "round_double (iw * max s1 s2) = Fin sw"
    using sw(1) by (simp add: sw_def scale_def)
  have sh1: "round_double (ih * max s1 s2) = Fin sh"
    using sh(1) by (simp add: sh_def scale_def)
  have calls: "calls (render imgs store index c) = calls c @
      [ClearRect (Fin 0) (Fin 0) (Fin w) (Fin h),
       DrawImage img (Fin 0) (Fin 0) (Fin iw) (Fin ih) (Fin cx) (Fin cy) (Fin sw) (Fin sh)]"
    unfolding render_at [OF get] d1 d2 mx m1 m2 unfolding nw cx(1) cy(1) by simp
  have "\<exists>s1 s2 sw sh cx cy.
      calls (render imgs store index c) = calls c @
        [ClearRect (Fin 0) (Fin 0) (Fin w) (Fin h),
         DrawImage img (Fin 0) (Fin 0) (Fin iw) (Fin ih) (Fin cx) (Fin cy) (Fin sw) (Fin sh)] \<and>
      round_double (w / iw) = Fin s1 \<and> round_double (h / ih) = Fin s2 \<and>
      round_double (iw * max s1 s2) = Fin sw \<and>
      round_double (ih * max s1 s2) = Fin sh \<and>
      \<bar>s1 - w / iw\<bar> \<le> w / iw / 2 ^ 53 \<and> \<bar>s2 - h / ih\<bar> \<le> h / ih / 2 ^ 53 \<and>
      w * (1 - 1 / 2 ^ 53)\<^sup>2 \<le> sw \<and> h * (1 - 1 / 2 ^ 53)\<^sup>2 \<le> sh \<and>
      (sw \<le> w * (1 + 1 / 2 ^ 53)\<^sup>2 \<or> sh \<le> h * (1 + 1 / 2 ^ 53)\<^sup>2) \<and>
      \<bar>cx - (w - sw) / 2\<bar> \<le> \<bar>w - sw\<bar> / 2 ^ 52 \<and>
      \<bar>cy - (h - sh) / 2\<bar> \<le> \<bar>h - sh\<bar> / 2 ^ 52"
    using calls s1 s2 sw1 sh1 cw(2) ch(2) one cx(2) cy(2)
    by blast
  then show ?thesis
    unfolding Let_def w_def h_def iw_def ih_def .
qed

theorem render_cover_fit_witness:
  "array_get [Some 0] (Math_round 0) = Some (0::nat) \<and>
   0 < cwidth sample_canvas \<and> 0 < cheight sample_canvas \<and>
   0 < width (sample_store 0) \<and> 0 < height (sample_store 0) \<and>
   cwidth sample_canvas < 2 ^ 32 \<and> cheight sample_canvas < 2 ^ 32 \<and>
   width (sample_store 0) < 2 ^ 32 \<and> height (sample_store 0) < 2 ^ 32 \<and>
   (\<exists>s1 s2 sw sh cx cy.
      calls (render [Some 0] sample_store 0 sample_canvas) =
        [ClearRect (Fin 0) (Fin 0) (Fin 800) (Fin 600),
         DrawImage 0 (Fin 0) (Fin 0) (Fin 1920) (Fin 1080)
           (Fin cx) (Fin cy) (Fin sw) (Fin sh)] \<and>
      round_double (800 / 1920) = Fin s1 \<and> round_double (600 / 1080) = Fin s2 \<and>
      round_double (1920 * max s1 s2) = Fin sw \<and>
      round_double (1080 * max s1 s2) = Fin sh \<and>
      800 * (1 - 1 / 2 ^ 53)\<^sup>2 \<le> sw \<and> 600 * (1 - 1 / 2 ^ 53)\<^sup>2 \<le> sh \<and>
      (sw \<le> 800 * (1 + 1 / 2 ^ 53)\<^sup>2 \<or> sh \<le> 600 * (1 + 1 / 2 ^ 53)\<^sup>2) \<and>
      \<bar>cx - (800 - sw) / 2\<bar> \<le> \<bar>800 - sw\<bar> / 2 ^ 52 \<and>
      \<bar>cy - (600 - sh) / 2\<bar> \<le> \<bar>600 - sh\<bar> / 2 ^ 52)"
proof -
  have a: "array_get [Some 0] (Math_round 0) = Some (0::nat)"
    by (simp add: array_get_def Math_round_def)
  have p: "0 < cwidth sample_canvas" "0 < cheight sample_canvas"
    "0 < width (sample_store 0)" "0 < height (sample_store 0)"
    by (simp_all add: sample_canvas_def sample_store_def)
  have b: "cwidth sample_canvas < 2 ^ 32" "cheight sample_canvas < 2 ^ 32"
    "width (sample_store 0) < 2 ^ 32" "height (sample_store 0) < 2 ^ 32"
    by (simp_all add: sample_canvas_def sample_store_def)
  have v: "real (cwidth sample_canvas) = 800" "real (cheight sample_canvas) = 600"
    "real (width (sample_store 0)) = 1920" "real (height (sample_store 0)) = 1080"
    "calls sample_canvas = []"
    by (simp_all add: sample_canvas_def sample_store_def)
  note t = render_cover_fit [where imgs = "[Some 0]" and index = 0 and img = 0 and c = sample_canvas
      and store = sample_store, OF a p b, unfolded Let_def v append_Nil]
  from t obtain s1 s2 sw sh cx cy where
    "calls (render [Some 0] sample_store 0 sample_canvas) =
        [ClearRect (Fin 0) (Fin 0) (Fin 800) (Fin 600),
         DrawImage 0 (Fin 0) (Fin 0) (Fin 1920) (Fin 1080)
           (Fin cx) (Fin cy) (Fin sw) (Fin sh)]"
    "round_double (800 / 1920) = Fin s1" "round_double (600 / 1080) = Fin s2"
    "round_double (1920 * max s1 s2) = Fin sw"
    "round_double (1080 * max s1 s2) = Fin sh"
    "800 * (1 - 1 / 2 ^ 53)\<^sup>2 \<le> sw" "600 * (1 - 1 / 2 ^ 53)\<^sup>2 \<le> sh"
    "sw \<le> 800 * (1 + 1 / 2 ^ 53)\<^sup>2 \<or> sh \<le> 600 * (1 + 1 / 2 ^ 53)\<^sup>2"
    "\<bar>cx - (800 - sw) / 2\<bar> \<le> \<bar>800 - sw\<bar> / 2 ^ 52"
    "\<bar>cy - (600 - sh) / 2\<bar> \<le> \<bar>600 - sh\<bar> / 2 ^ 52"
    by blast
  with a p b show ?thesis by blast
qed

text \<open>
  Claim C4 says that the scaled width is at least \<open>w\<close> and the scaled height at least \<open>h\<close>,
  one of the two being equal. On a 39 by 39 canvas with a 1920 by 1080 image the quotient
  39 / 1080 rounds down, and 1080 times the rounded quotient rounds to \<open>39 - 2 ^ -47\<close>: the
  scaled height is below 39, the scaled width is about 69.33, and neither is equal to 39.
\<close>

theorem render_cover_fit_counterexample:
  "array_get [Some 0] (Math_round 0) = Some (0::nat) \<and>
   0 < cwidth small_canvas \<and> 0 < cheight small_canvas \<and>
   0 < width (sample_store 0) \<and> 0 < height (sample_store 0) \<and>
   calls (render [Some 0] sample_store 0 small_canvas) =
     [ClearRect (Fin 0) (Fin 0) (Fin 39) (Fin 39),
      DrawImage 0 (Fin 0) (Fin 0) (Fin 1920) (Fin 1080)
        (Fin (- 2134518573389141 / 2 ^ 47)) (Fin (1 / 2 ^ 48))
        (Fin (4878899596318037 / 2 ^ 46)) (Fin (5488762045857791 / 2 ^ 47))] \<and>
   5488762045857791 / 2 ^ 47 < (39::real) \<and>
   4878899596318037 / 2 ^ 46 \<noteq> (39::real) \<and>
   5488762045857791 / 2 ^ 47 \<noteq> (39::real)"
proof -
  define hR :: real where "hR = 5854679515581645 / 2 ^ 58"
  define vR :: real where "vR = 5204159569405906 / 2 ^ 57"
  define sw :: real where "sw = 4878899596318037 / 2 ^ 46"
  define sh :: real where "sh = 5488762045857791 / 2 ^ 47"
  define dx :: real where "dx = - 2134518573389141 / 2 ^ 46"
  define dy :: real where "dy = 1 / 2 ^ 47"
  have a: "array_get [Some 0] (Math_round 0) = Some (0::nat)"
    by (simp add: array_get_def Math_round_def)
  have h: "js_div (Fin 39) (Fin 1920) = Fin hR"
    using round_double_eval [of "39 / 1920" "- 6"]
    by (simp add: hR_def rne_def power_int_minus)
  have v: "js_div (Fin 39) (Fin 1080) = Fin vR"
    using round_double_eval [of "39 / 1080" "- 5"]
    by (simp add: vR_def rne_def power_int_minus)
  have m: "Math_max (Fin hR) (Fin vR) = Fin vR"
    by (simp add: hR_def vR_def)
  have w': "js_mul (Fin 1920) (Fin vR) = Fin sw"
    using round_double_eval [of "1920 * vR" 6]
    by (simp add: vR_def sw_def rne_def power_int_minus)
  have h': "js_mul (Fin 1080) (Fin vR) = Fin sh"
    using round_double_eval [of "1080 * vR" 5]
    by (simp add: vR_def sh_def rne_def power_int_minus)
  have x1: "js_sub (Fin 39) (Fin sw) = Fin dx"
    using round_double_eval [of "39 - sw" 4]
    by (simp add: js_sub_def sw_def dx_def rne_def power_int_minus)
  have y1: "js_sub (Fin 39) (Fin sh) = Fin dy"
    using round_double_eval [of "39 - sh" "- 47"]
    by (simp add: js_sub_def sh_def dy_def rne_def power_int_minus)
  have x2: "js_div (Fin dx) (Fin 2) = Fin (dx / 2)"
    using round_double_eval [of "dx / 2" 3]
    by (simp add: dx_def rne_def power_int_minus)
  have y2: "js_div (Fin dy) (Fin 2) = Fin (dy / 2)"
    using round_double_eval [of "dy / 2" "- 48"]
    by (simp add: dy_def rne_def power_int_minus)
  have c: "calls (render [Some 0] sample_store 0 small_canvas) =
     [ClearRect (Fin 0) (Fin 0) (Fin 39) (Fin 39),
      DrawImage 0 (Fin 0) (Fin 0) (Fin 1920) (Fin 1080)
        (Fin (dx / 2)) (Fin (dy / 2)) (Fin sw) (Fin sh)]"
    unfolding render_at [OF a]
    by (simp add: small_canvas_def sample_store_def num_def h v m w' h' x1 y1 x2 y2
          del: js_div.simps js_mul.simps js_add.simps Math_max.simps)
  have n: "sh < 39" "sw \<noteq> 39" "sh \<noteq> 39"
    by (simp_all add: sw_def sh_def)
  have p: "0 < cwidth small_canvas" "0 < cheight small_canvas"
    "0 < width (sample_store 0)" "0 < height (sample_store 0)"
    by (simp_all add: small_canvas_def sample_store_def)
  from a p c n show ?thesis
    unfolding sw_def sh_def dx_def dy_def by simp
qed

subsection \<open>Holes and the empty list\<close>

text \<open>
  Claim C5. When the slot selected by \<open>render\<close> holds no element (a hole, or an index
  outside the array), \<open>render\<close> returns the canvas as it was: no call is added, neither
  \<open>clearRect\<close> nor \<open>drawImage\<close>.
\<close>

theorem render_hole_no_call:
  "array_get imgs (Math_round index) = None \<Longrightarrow> render imgs store index c = c"
  by (simp add: render_def)

theorem render_hole_no_call_witness:
  "array_get [Some 0, None, Some (2::nat)] (Math_round 0.8) = None \<and>
   render [Some 0, None, Some 2] sample_store 0.8 sample_canvas = sample_canvas"
proof -
  have a: "array_get [Some 0, None, Some (2::nat)] (Math_round 0.8) = None"
    by (simp add: array_get_def Math_round_def)
  from a render_hole_no_call [OF a, of sample_store sample_canvas] show ?thesis by blast
qed

text \<open>
  Claim C10. With the empty list of images the rendering effect leaves the page as it
  was, whatever the progress: no resize listener, no subscription to \<open>frameIndex\<close>, no
  change of the canvas size and no call on the canvas.
\<close>

theorem canvas_effect_empty_images: "canvas_effect [] store smoothProgress pg = pg"
  by (simp add: canvas_effect_def)

section \<open>A failed load\<close>

lemma net37_fails: "net37 (imagePaths ! 36) = None"
  by (simp add: imagePaths_36 net37_def)

lemma failed_element:
  "net (imagePaths ! i) = None \<Longrightarrow> width (element_after net i) = 0 \<and> height (element_after net i) = 0"
  by (simp add: element_after_def new_Image_def)

lemma render_empty_element:
  assumes "array_get imgs (Math_round index) = Some img"
    and "width (store img) = 0" "height (store img) = 0"
  shows "render imgs store index c =
     c\<lparr>imageSmoothingEnabled := True,
       imageSmoothingQuality := ''high'',
       calls := calls c @
         [ClearRect (Fin 0) (Fin 0) (num (cwidth c)) (num (cheight c)),
          DrawImage img (Fin 0) (Fin 0) (Fin 0) (Fin 0) NaN NaN NaN NaN]\<rparr>"
proof -
  have "Math_max (js_div (num (cwidth c)) (Fin 0)) (js_div (num (cheight c)) (Fin 0)) = NaN
     \<or> Math_max (js_div (num (cwidth c)) (Fin 0)) (js_div (num (cheight c)) (Fin 0)) = PInf"
    by (simp add: num_def inf_of_sign_def)
  then have m: "js_mul (Fin 0) (Math_max (js_div (num (cwidth c)) (Fin 0))
      (js_div (num (cheight c)) (Fin 0))) = NaN"
    by auto
  have z: "num 0 = Fin 0" by (simp add: num_def)
  have s: "js_div (js_sub (num n) NaN) (Fin 2) = NaN" for n
    by (simp add: num_def js_sub_def)
  show ?thesis
    unfolding render_at [OF assms(1)] assms(2,3) z m s ..
qed

text \<open>
  Claim C2 says that the slot of an image that failed to load is left empty and that a
  later \<open>render\<close> for it makes no drawing call and leaves the canvas as it was. On the
  network \<open>net37\<close> the image of index 36 fails; after the load its slot holds the element
  created for it, and \<open>render\<close> at index 36 clears the 800 by 600 canvas and calls
  \<open>drawImage\<close> with the 0 by 0 element.
\<close>

theorem failed_load_counterexample:
  "net37 (imagePaths ! 36) = None \<and>
   array_get (images (loadAllImages net37 initial_loader)) 36 = Some 36 \<and>
   calls (render (images (loadAllImages net37 initial_loader))
            (heap (loadAllImages net37 initial_loader)) 36 sample_canvas) =
     [ClearRect (Fin 0) (Fin 0) (Fin 800) (Fin 600),
      DrawImage 36 (Fin 0) (Fin 0) (Fin 0) (Fin 0) NaN NaN NaN NaN] \<and>
   render (images (loadAllImages net37 initial_loader))
     (heap (loadAllImages net37 initial_loader)) 36 sample_canvas \<noteq> sample_canvas"
proof -
  let ?s = "loadAllImages net37 initial_loader"
  have g: "array_get (images ?s) (int 36) = Some 36"
    unfolding images_final array_get_dense by simp
  have r: "array_get (images ?s) (Math_round (real 36)) = Some 36"
    unfolding Math_round_of_nat by (rule g)
  have z: "width (heap ?s 36) = 0" "height (heap ?s 36) = 0"
    using failed_element [where net = net37 and i = 36] net37_fails by (simp_all add: heap_final)
  have c: "render (images ?s) (heap ?s) (real 36) sample_canvas =
     sample_canvas\<lparr>imageSmoothingEnabled := True,
       imageSmoothingQuality := ''high'',
       calls := calls sample_canvas @
         [ClearRect (Fin 0) (Fin 0) (num (cwidth sample_canvas)) (num (cheight sample_canvas)),
          DrawImage 36 (Fin 0) (Fin 0) (Fin 0) (Fin 0) NaN NaN NaN NaN]\<rparr>"
    using r z
    by (rule render_empty_element [where imgs = "images ?s" and store = "heap ?s"
          and index = "real 36" and img = 36 and c = sample_canvas])
  have c1: "calls (render (images ?s) (heap ?s) 36 sample_canvas) =
     [ClearRect (Fin 0) (Fin 0) (Fin 800) (Fin 600),
      DrawImage 36 (Fin 0) (Fin 0) (Fin 0) (Fin 0) NaN NaN NaN NaN]"
    using c by (simp add: sample_canvas_def num_def)
  then have c2: "render (images ?s) (heap ?s) 36 sample_canvas \<noteq> sample_canvas"
    by (auto simp: sample_canvas_def)
  from net37_fails g c1 c2 show ?thesis by simp
qed

text \<open>
  Claim C2, amended. For every index whose image fails to load: the batches and the
  publications are the same 29 as on any network; the element created for the index stays
  in its slot, in every snapshot from its batch on and in the final \<open>images\<close>; the element
  keeps the size 0 by 0; and \<open>render\<close> for that index is not skipped: it clears the whole
  canvas and then calls \<open>drawImage\<close> with that element, a 0 by 0 source rectangle and
  \<open>NaN\<close> for the destination.
\<close>

theorem failed_load_slot_kept:
  assumes "i < 144" "net (imagePaths ! i) = None"
  shows "log (loadAllImages net initial_loader) = concat (map batch_events [0..<29]) \<and>
    (k < 29 \<and> i < 5 * k + 5 \<longrightarrow>
       array_get (published (log (loadAllImages net initial_loader)) ! k) (int i) = Some i) \<and>
    array_get (images (loadAllImages net initial_loader)) (int i) = Some i \<and>
    width (heap (loadAllImages net initial_loader) i) = 0 \<and>
    height (heap (loadAllImages net initial_loader) i) = 0 \<and>
    render (images (loadAllImages net initial_loader)) (heap (loadAllImages net initial_loader))
        (real i) c =
      c\<lparr>imageSmoothingEnabled := True,
        imageSmoothingQuality := ''high'',
        calls := calls c @
          [ClearRect (Fin 0) (Fin 0) (num (cwidth c)) (num (cheight c)),
           DrawImage i (Fin 0) (Fin 0) (Fin 0) (Fin 0) NaN NaN NaN NaN]\<rparr>"
proof -
  let ?s = "loadAllImages net initial_loader"
  have p: "k < 29 \<and> i < 5 * k + 5 \<longrightarrow> array_get (published (log ?s) ! k) (int i) = Some i"
    using assms(1) by (auto simp: published_nth array_get_dense)
  have g: "array_get (images ?s) (int i) = Some i"
    unfolding images_final array_get_dense using assms(1) by simp
  have r: "array_get (images ?s) (Math_round (real i)) = Some i"
    unfolding Math_round_of_nat by (rule g)
  have z: "width (heap ?s i) = 0" "height (heap ?s i) = 0"
    using assms(2) by (simp_all add: heap_final [OF assms(1)] element_after_def new_Image_def)
  note c = render_empty_element [where imgs = "images ?s" and store = "heap ?s"
      and index = "real i" and img = i and c = c, OF r z]
  from log_final p g z c show ?thesis by blast
qed

theorem failed_load_slot_kept_witness:
  "(36::nat) < 144 \<and> net37 (imagePaths ! 36) = None \<and>
   (7::nat) < 29 \<and> (36::nat) < 5 * 7 + 5 \<and>
   array_get (published (log (loadAllImages net37 initial_loader)) ! 7) (int 36) = Some 36 \<and>
   array_get (images (loadAllImages net37 initial_loader)) (int 36) = Some 36 \<and>
   width (heap (loadAllImages net37 initial_loader) 36) = 0 \<and>
   height (heap (loadAllImages net37 initial_loader) 36) = 0 \<and>
   calls (render (images (loadAllImages net37 initial_loader))
            (heap (loadAllImages net37 initial_loader)) (real 36) sample_canvas) =
     [ClearRect (Fin 0) (Fin 0) (Fin 800) (Fin 600),
      DrawImage 36 (Fin 0) (Fin 0) (Fin 0) (Fin 0) NaN NaN NaN NaN]"
proof -
  have a: "(36::nat) < 144" by simp
  note t = failed_load_slot_kept [where net = net37 and i = 36 and k = 7 and c = sample_canvas, OF a net37_fails]
  have "calls (render (images (loadAllImages net37 initial_loader))
            (heap (loadAllImages net37 initial_loader)) (real 36) sample_canvas) =
     [ClearRect (Fin 0) (Fin 0) (Fin 800) (Fin 600),
      DrawImage 36 (Fin 0) (Fin 0) (Fin 0) (Fin 0) NaN NaN NaN NaN]"
    using t by (simp add: sample_canvas_def num_def)
  moreover have "(7::nat) < 29" "(36::nat) < 5 * 7 + 5" by simp_all
  ultimately show ?thesis using a t net37_fails by blast
qed

end
